theory Spec2Isabelle
  imports Complex_Main "HOL-Library.Monad_Syntax"
begin

section \<open>The search tree of Allie (lib/node.cpp)\<close>

text \<open>
  The development embeds the functions of \<^verbatim>\<open>lib/node.cpp\<close>. Conventions:

  \<^item> C++ \<^verbatim>\<open>float\<close>, \<^verbatim>\<open>double\<close> and \<^verbatim>\<open>qreal\<close> values are embedded as \<^typ>\<open>real\<close>:
    arithmetic is exact, rounding to the floating-point grid is not modelled. Concrete
    inputs used below are chosen so that the margins are far above single-precision
    rounding.
  \<^item> The counters \<open>visited\<close> and \<open>virtualLoss\<close> are natural numbers; their C++ type is
    declared in the header, and overflow of a counter is not modelled.
  \<^item> Nodes live in a store, a map from node addresses to node records; a \<^verbatim>\<open>Node*\<close> is an
    address, \<^verbatim>\<open>nullptr\<close> is \<open>None\<close>. Following a pointer that is not in the store, or a
    loop over parent pointers that never ends, yields \<open>None\<close>.
  \<^item> The header \<^verbatim>\<open>node.h\<close>, the classes \<^verbatim>\<open>Game\<close>, \<^verbatim>\<open>Move\<close>, \<^verbatim>\<open>PotentialNode\<close>,
    \<^verbatim>\<open>HistoryIterator\<close>, \<^verbatim>\<open>TB\<close>, \<^verbatim>\<open>SearchSettings\<close> and the Qt helpers are not part of
    \<^verbatim>\<open>node.cpp\<close>. What the functions of \<^verbatim>\<open>node.cpp\<close> need from them is either a parameter
    (the record \<open>rules\<close>, the constants \<open>vldMax\<close> and \<open>MAX_DEPTH\<close>, the history of a node,
    its depth) or a small definition marked as modelled.
\<close>

subsection \<open>Data model\<close>

type_synonym move = nat

datatype army = White | Black

datatype probe = NotFound | Win | Loss | Draw

text \<open>
  Modelled from the spec: the class \<^verbatim>\<open>Game\<close> (an opaque position with the operations
  \<^verbatim>\<open>lastMove\<close>, \<^verbatim>\<open>halfMoveClock\<close>, \<^verbatim>\<open>activeArmy\<close>, \<^verbatim>\<open>repetitions\<close>/\<^verbatim>\<open>setRepetitions\<close>,
  \<^verbatim>\<open>setCheckMate\<close>, \<^verbatim>\<open>setStaleMate\<close>). The field \<open>position\<close> stands for the board; the cached
  repetition count is \<open>-1\<close> while unknown.
\<close>

record game =
  position :: nat
  lastMove :: move
  halfMoveClock :: nat
  activeArmy :: army
  repetitionsCache :: int
  checkMate :: bool
  staleMate :: bool

text \<open>
  The external collaborators of \<^verbatim>\<open>node.cpp\<close>: the rules engine (\<^verbatim>\<open>Game::isDeadPosition\<close>,
  \<^verbatim>\<open>Game::isSamePosition\<close>, \<^verbatim>\<open>Game::isChecked\<close>, \<^verbatim>\<open>Game::makeMove\<close>, which fails with
  \<open>None\<close>, \<^verbatim>\<open>Game::pseudoLegalMoves\<close>, as the list of moves handed to the callback) and the
  tablebase probe \<^verbatim>\<open>TB::probe\<close>.
\<close>

record rules =
  isDeadPosition :: "game \<Rightarrow> bool"
  isSamePosition :: "game \<Rightarrow> game \<Rightarrow> bool"
  isChecked :: "game \<Rightarrow> army \<Rightarrow> bool"
  makeMove :: "game \<Rightarrow> move \<Rightarrow> game option"
  pseudoLegalMoves :: "game \<Rightarrow> move list"
  tbProbe :: "game \<Rightarrow> probe"

text \<open>
  Modelled from the spec: the class \<^verbatim>\<open>PotentialNode\<close> (a move and its prior probability);
  a prior that was never assigned is the sentinel \<open>-2\<close>, as for nodes.
\<close>

record potentialNode =
  potMove :: move
  potPValue :: real

definition PotentialNode :: "move \<Rightarrow> potentialNode" where
  "PotentialNode mv = \<lparr>potMove = mv, potPValue = - 2\<rparr>"

text \<open>The members of \<^verbatim>\<open>Node\<close>, as the constructor initialises them.\<close>

record node =
  m_game :: game
  m_parent :: "nat option"
  m_children :: "nat list"
  m_potentials :: "potentialNode list"
  m_visited :: nat
  m_virtualLoss :: nat
  m_qValue :: real
  m_rawQValue :: real
  m_pValue :: real
  m_policySum :: real
  m_uCoeff :: real
  m_isExact :: bool
  m_isTB :: bool
  m_scoringOrScored :: bool

type_synonym store = "nat \<Rightarrow> node option"

definition Node :: "nat option \<Rightarrow> game \<Rightarrow> node" where
  "Node parent g =
     \<lparr>m_game = g, m_parent = parent, m_children = [], m_potentials = [],
      m_visited = 0, m_virtualLoss = 0, m_qValue = - 2, m_rawQValue = - 2,
      m_pValue = - 2, m_policySum = 0, m_uCoeff = - 2, m_isExact = False,
      m_isTB = False, m_scoringOrScored = False\<rparr>"

subsection \<open>Centipawn conversion\<close>

text \<open>\<^verbatim>\<open>qRound\<close> is embedded as \<^const>\<open>round\<close>, \<^verbatim>\<open>qTan\<close> and \<^verbatim>\<open>qAtan\<close> as \<^const>\<open>tan\<close> and
  \<^const>\<open>arctan\<close>.\<close>

definition scoreToCP :: "real \<Rightarrow> int" where
  "scoreToCP score = round (290.680623072 * tan (1.548090806 * score))"

definition cpToScore :: "int \<Rightarrow> real" where
  "cpToScore cp = arctan (real_of_int cp / 290.680623072) / 1.548090806"

subsection \<open>Virtual loss distance\<close>

text \<open>Qt's \<^verbatim>\<open>qFuzzyCompare(float, float)\<close>:
  \<^verbatim>\<open>qAbs(p1 - p2) * 100000.f <= qMin(qAbs(p1), qAbs(p2))\<close>.\<close>

definition qFuzzyCompare :: "real \<Rightarrow> real \<Rightarrow> bool" where
  "qFuzzyCompare p1 p2 \<longleftrightarrow> \<bar>p1 - p2\<bar> * 100000 \<le> min \<bar>p1\<bar> \<bar>p2\<bar>"

text \<open>
  \<^verbatim>\<open>virtualLossDistance(wec, a, b)\<close>: the candidate \<open>a\<close> is unused; \<open>q\<close>, \<open>p\<close> and \<open>uCoeff\<close> are
  what the view \<open>b\<close> reports (\<^verbatim>\<open>b.qValue()\<close>, \<^verbatim>\<open>b.pValue()\<close>, \<^verbatim>\<open>b.uCoeff()\<close>), and \<open>vldMax\<close> is
  \<^verbatim>\<open>SearchSettings::vldMax\<close>.
\<close>

definition virtualLossDistance :: "int \<Rightarrow> real \<Rightarrow> real \<Rightarrow> real \<Rightarrow> real \<Rightarrow> int" where
  "virtualLossDistance vldMax wec q p uCoeff =
     (if qFuzzyCompare (wec - q) 0 then 1
      else if q > wec then vldMax
      else let nf = - (q + p * uCoeff - wec) / (wec - q);
               n = max 1 \<lceil>nf\<rceil>
           in n)"

subsection \<open>Accessors of the header\<close>

text \<open>
  Modelled from the spec: the inline accessors of \<^verbatim>\<open>node.h\<close>. The root has no parent;
  \<^verbatim>\<open>hasQValue()\<close> holds exactly when \<open>visited \<ge> 1\<close>; \<open>rawQValue\<close> and \<open>pValue\<close> are unset
  while they hold the sentinel \<open>-2\<close> the constructor stores.
\<close>

definition isRootNode :: "node \<Rightarrow> bool" where
  "isRootNode n \<longleftrightarrow> m_parent n = None"

definition hasChildren :: "node \<Rightarrow> bool" where
  "hasChildren n \<longleftrightarrow> m_children n \<noteq> []"

definition hasPotentials :: "node \<Rightarrow> bool" where
  "hasPotentials n \<longleftrightarrow> m_potentials n \<noteq> []"

definition hasQValue :: "node \<Rightarrow> bool" where
  "hasQValue n \<longleftrightarrow> 1 \<le> m_visited n"

definition hasRawQValue :: "node \<Rightarrow> bool" where
  "hasRawQValue n \<longleftrightarrow> m_rawQValue n \<noteq> - 2"

definition hasPValue :: "node \<Rightarrow> bool" where
  "hasPValue n \<longleftrightarrow> m_pValue n \<noteq> - 2"

subsection \<open>Root of a node, re-rooting\<close>

partial_function (option) rootNode :: "store \<Rightarrow> nat \<Rightarrow> nat option" where
  "rootNode s i =
     (case s i of
        None \<Rightarrow> None
      | Some n \<Rightarrow> if isRootNode n then Some i
                  else (case m_parent n of None \<Rightarrow> None | Some p \<Rightarrow> rootNode s p))"

text \<open>\<^verbatim>\<open>QVector::indexOf\<close> (first index of the value, \<open>-1\<close> when absent) and
  \<^verbatim>\<open>QVector::remove(int)\<close> at an index inside the vector.\<close>

fun indexOf :: "nat list \<Rightarrow> nat \<Rightarrow> int" where
  "indexOf [] x = - 1"
| "indexOf (y # ys) x =
     (if y = x then 0
      else (if indexOf ys x = - 1 then - 1 else indexOf ys x + 1))"

definition removeAt :: "int \<Rightarrow> nat list \<Rightarrow> nat list" where
  "removeAt i xs = take (nat i) xs @ drop (nat i + 1) xs"

text \<open>
  \<^verbatim>\<open>setAsRootNode\<close>. The assertion \<^verbatim>\<open>index != -1\<close> guards \<^verbatim>\<open>remove(index)\<close>, which is
  undefined outside the vector: that case is the error \<open>None\<close>.
\<close>

definition setAsRootNode :: "store \<Rightarrow> nat \<Rightarrow> store option" where
  "setAsRootNode s c =
     (case s c of
        None \<Rightarrow> None
      | Some n \<Rightarrow>
          (case m_parent n of
             None \<Rightarrow> Some (s(c \<mapsto> n\<lparr>m_parent := None\<rparr>))
           | Some p \<Rightarrow>
               (case s p of
                  None \<Rightarrow> None
                | Some pn \<Rightarrow>
                    if indexOf (m_children pn) c = - 1 then None
                    else
                      (case (s(p \<mapsto> pn\<lparr>m_children :=
                                removeAt (indexOf (m_children pn) c) (m_children pn)\<rparr>)) c of
                         None \<Rightarrow> None
                       | Some n1 \<Rightarrow>
                           Some ((s(p \<mapsto> pn\<lparr>m_children :=
                                removeAt (indexOf (m_children pn) c) (m_children pn)\<rparr>))
                                 (c \<mapsto> n1\<lparr>m_parent := None\<rparr>))))))"

subsection \<open>Principal variation\<close>

text \<open>
  \<^verbatim>\<open>principalVariation(int *depth)\<close> returns the string and the new value of the counter.
  \<^verbatim>\<open>Notation::moveToString\<close> and \<^verbatim>\<open>sortByScore\<close> are parameters; \<^verbatim>\<open>children.first()\<close> of an
  empty vector is the error \<open>None\<close>.
\<close>

partial_function (option) principalVariation ::
  "(move \<Rightarrow> string) \<Rightarrow> (store \<Rightarrow> nat list \<Rightarrow> nat list) \<Rightarrow> store \<Rightarrow> nat \<Rightarrow> int
     \<Rightarrow> (string \<times> int) option" where
  "principalVariation moveToString sortByScore s i depth =
     (case s i of
        None \<Rightarrow> None
      | Some n \<Rightarrow>
          if \<not> isRootNode n \<and> \<not> hasPValue n then Some ([], depth)
          else if \<not> hasChildren n
            then Some (moveToString (lastMove (m_game n)), depth + 1)
          else
            (case sortByScore s (m_children n) of
               [] \<Rightarrow> None
             | bestChild # rest \<Rightarrow>
                 if isRootNode n
                   then principalVariation moveToString sortByScore s bestChild (depth + 1)
                 else
                   Option.bind
                     (principalVariation moveToString sortByScore s bestChild (depth + 1))
                     (\<lambda>r. Some (moveToString (lastMove (m_game n)) @ '' '' @ fst r, snd r))))"

subsection \<open>Repetitions\<close>

text \<open>
  \<^verbatim>\<open>Node::repetitions\<close>. The list \<open>hist\<close> holds the positions the \<^verbatim>\<open>HistoryIterator\<close> yields
  after this node's own position, nearest first. The loop counts equal positions and stops
  at two, or behind the first position whose halfmove clock is zero. The count is cached
  in the game of the node, so the node is returned with the result.
\<close>

fun countRepetitions :: "rules \<Rightarrow> game \<Rightarrow> game list \<Rightarrow> int \<Rightarrow> int" where
  "countRepetitions R g [] r = r"
| "countRepetitions R g (h # hs) r =
     (if (if isSamePosition R g h then r + 1 else r) \<ge> 2
        then (if isSamePosition R g h then r + 1 else r)
      else if halfMoveClock h = 0
        then (if isSamePosition R g h then r + 1 else r)
      else countRepetitions R g hs (if isSamePosition R g h then r + 1 else r))"

definition repetitions :: "rules \<Rightarrow> game list \<Rightarrow> node \<Rightarrow> int \<times> node" where
  "repetitions R hist n =
     (if repetitionsCache (m_game n) \<noteq> - 1 then (repetitionsCache (m_game n), n)
      else (countRepetitions R (m_game n) hist 0,
            n\<lparr>m_game := (m_game n)\<lparr>repetitionsCache :=
                 countRepetitions R (m_game n) hist 0\<rparr>\<rparr>))"

definition isThreeFold :: "rules \<Rightarrow> game list \<Rightarrow> node \<Rightarrow> bool \<times> node" where
  "isThreeFold R hist n = (fst (repetitions R hist n) \<ge> 2, snd (repetitions R hist n))"

subsection \<open>Back-propagation\<close>

definition setQValueFromRaw :: "node \<Rightarrow> node" where
  "setQValueFromRaw n = n\<lparr>m_qValue := m_rawQValue n\<rparr>"

definition setRawQValue :: "real \<Rightarrow> node \<Rightarrow> node" where
  "setRawQValue qValue n = n\<lparr>m_rawQValue := qValue\<rparr>"

definition incrementVisited :: "node \<Rightarrow> node" where
  "incrementVisited n = n\<lparr>m_uCoeff := - 2, m_virtualLoss := 0, m_visited := m_visited n + 1\<rparr>"

definition backPropagateValue :: "real \<Rightarrow> node \<Rightarrow> node" where
  "backPropagateValue v n =
     incrementVisited
       (n\<lparr>m_qValue := (real (m_visited n) * m_qValue n + v) / real (m_visited n + 1)\<rparr>)"

text \<open>The loop of \<^verbatim>\<open>backPropagateValueFull\<close>: \<open>v\<close> is flipped, then handed to the parent.\<close>

partial_function (option) backPropagateLoop :: "store \<Rightarrow> real \<Rightarrow> nat option \<Rightarrow> store option" where
  "backPropagateLoop s v parent =
     (case parent of
        None \<Rightarrow> Some s
      | Some p \<Rightarrow>
          (case s p of
             None \<Rightarrow> None
           | Some pn \<Rightarrow>
               backPropagateLoop (s(p \<mapsto> backPropagateValue (- v) pn)) (- v) (m_parent pn)))"

definition backPropagateValueFull :: "store \<Rightarrow> nat \<Rightarrow> store option" where
  "backPropagateValueFull s i =
     (case s i of None \<Rightarrow> None | Some n \<Rightarrow> backPropagateLoop s (m_qValue n) (m_parent n))"

text \<open>Apply a member function that only writes to the node at address \<open>i\<close>.\<close>

definition onNode :: "(node \<Rightarrow> node) \<Rightarrow> store \<Rightarrow> nat \<Rightarrow> store option" where
  "onNode f s i = (case s i of None \<Rightarrow> None | Some n \<Rightarrow> Some (s(i \<mapsto> f n)))"

definition setQValueAndPropagate :: "store \<Rightarrow> nat \<Rightarrow> store option" where
  "setQValueAndPropagate s i =
     (case s i of
        None \<Rightarrow> None
      | Some n \<Rightarrow>
          Option.bind
            (case m_parent n of
               None \<Rightarrow> Some s
             | Some p \<Rightarrow>
                 if m_visited n = 0
                   then onNode (\<lambda>pn. pn\<lparr>m_policySum := m_policySum pn + m_pValue n\<rparr>) s p
                 else Some s)
            (\<lambda>s1. Option.bind (onNode incrementVisited s1 i)
               (\<lambda>s2. Option.bind (onNode setQValueFromRaw s2 i)
                  (\<lambda>s3. backPropagateValueFull s3 i))))"

subsection \<open>Expansion\<close>

text \<open>\<^verbatim>\<open>generatePotential\<close>: the callback of \<^verbatim>\<open>pseudoLegalMoves\<close>.\<close>

definition generatePotential :: "rules \<Rightarrow> node \<Rightarrow> move \<Rightarrow> node" where
  "generatePotential R n mv =
     (case makeMove R (m_game n) mv of
        None \<Rightarrow> n
      | Some g \<Rightarrow>
          if isChecked R g (activeArmy (m_game n)) then n
          else n\<lparr>m_potentials := m_potentials n @ [PotentialNode mv]\<rparr>)"

text \<open>
  \<^verbatim>\<open>generatePotentials\<close> writes to its own node only. The parameters are the rules, the
  constant \<^verbatim>\<open>MAX_DEPTH\<close>, the history of the node (see \<open>repetitions\<close>) and the value \<open>depth\<close>
  of \<^verbatim>\<open>depth()\<close>, the number of plies between the node and the root.
\<close>

definition generatePotentials :: "rules \<Rightarrow> nat \<Rightarrow> game list \<Rightarrow> nat \<Rightarrow> node \<Rightarrow> node" where
  "generatePotentials R MAX_DEPTH hist depth n =
     (if hasPotentials n then n
      else if halfMoveClock (m_game n) \<ge> 100
        then n\<lparr>m_rawQValue := 0, m_isExact := True\<rparr>
      else if isDeadPosition R (m_game n)
        then n\<lparr>m_rawQValue := 0, m_isExact := True\<rparr>
      else if fst (isThreeFold R hist n)
        then (snd (isThreeFold R hist n))\<lparr>m_rawQValue := 0, m_isExact := True\<rparr>
      else
        (let n1 = snd (isThreeFold R hist n);
             result = (if isRootNode n1 then NotFound else tbProbe R (m_game n1))
         in case result of
              Win \<Rightarrow> n1\<lparr>m_rawQValue := 1 - cpToScore 1, m_isExact := True, m_isTB := True\<rparr>
            | Loss \<Rightarrow> n1\<lparr>m_rawQValue := - 1 + cpToScore 1, m_isExact := True, m_isTB := True\<rparr>
            | Draw \<Rightarrow> n1\<lparr>m_rawQValue := 0, m_isExact := True, m_isTB := True\<rparr>
            | NotFound \<Rightarrow>
                (let n2 = foldl (generatePotential R) n1 (pseudoLegalMoves R (m_game n1))
                 in if \<not> hasPotentials n2
                      then (if isChecked R (m_game n2) (activeArmy (m_game n2))
                              then n2\<lparr>m_game := (m_game n2)\<lparr>checkMate := True\<rparr>,
                                      m_rawQValue := 1 + real MAX_DEPTH * 0.0001
                                                       - real depth * 0.0001,
                                      m_isExact := True\<rparr>
                            else n2\<lparr>m_game := (m_game n2)\<lparr>staleMate := True\<rparr>,
                                    m_rawQValue := 0, m_isExact := True\<rparr>)
                    else n2)))"

subsection \<open>Sample trees\<close>

text \<open>A position with clock zero, and rules under which the side to move is in check
  and has no move; the tablebase knows nothing.\<close>

definition sampleGame :: game where
  "sampleGame = \<lparr>position = 0, lastMove = 0, halfMoveClock = 0, activeArmy = White,
                  repetitionsCache = - 1, checkMate = False, staleMate = False\<rparr>"

definition matedRules :: rules where
  "matedRules = \<lparr>isDeadPosition = (\<lambda>g. False), isSamePosition = (\<lambda>g h. False),
                  isChecked = (\<lambda>g a. True), makeMove = (\<lambda>g mv. None),
                  pseudoLegalMoves = (\<lambda>g. []), tbProbe = (\<lambda>g. NotFound)\<rparr>"

text \<open>A root at address 0 with one fresh child at address 1.\<close>

definition freshPair :: store where
  "freshPair = [0 \<mapsto> (Node None sampleGame)\<lparr>m_children := [1]\<rparr>,
                1 \<mapsto> Node (Some 0) sampleGame]"

subsection \<open>The branches of generatePotentials\<close>

text \<open>The node as \<open>generatePotentials\<close> holds it behind the repetition test, which caches
  the count in the game.\<close>

definition afterRepetitionTest :: "rules \<Rightarrow> game list \<Rightarrow> node \<Rightarrow> node" where
  "afterRepetitionTest R hist n = snd (isThreeFold R hist n)"

text \<open>The call gets past the three draw tests.\<close>

definition passesDrawTests :: "rules \<Rightarrow> game list \<Rightarrow> node \<Rightarrow> bool" where
  "passesDrawTests R hist n \<longleftrightarrow>
     \<not> hasPotentials n \<and> halfMoveClock (m_game n) < 100 \<and> \<not> isDeadPosition R (m_game n)
     \<and> \<not> fst (isThreeFold R hist n)"

text \<open>The call gets past the draw tests and the tablebase, and move generation produces
  no potential.\<close>

definition noLegalMove :: "rules \<Rightarrow> game list \<Rightarrow> node \<Rightarrow> bool" where
  "noLegalMove R hist n \<longleftrightarrow>
     passesDrawTests R hist n
     \<and> (if isRootNode n then True
        else tbProbe R (m_game (afterRepetitionTest R hist n)) = NotFound)
     \<and> \<not> hasPotentials
           (foldl (generatePotential R) (afterRepetitionTest R hist n)
              (pseudoLegalMoves R (m_game (afterRepetitionTest R hist n))))"

definition sideToMoveInCheck :: "rules \<Rightarrow> game list \<Rightarrow> node \<Rightarrow> bool" where
  "sideToMoveInCheck R hist n \<longleftrightarrow>
     isChecked R (m_game (afterRepetitionTest R hist n))
       (activeArmy (m_game (afterRepetitionTest R hist n)))"

text \<open>Further sample rules: no move and no check; a tablebase that reports a win, a
  loss, a draw; positions compared by their board; a dead position.\<close>

definition staleRules :: rules where
  "staleRules = matedRules\<lparr>isChecked := (\<lambda>g a. False)\<rparr>"

definition tbRules :: "probe \<Rightarrow> rules" where
  "tbRules r = matedRules\<lparr>tbProbe := (\<lambda>g. r)\<rparr>"

definition boardRules :: rules where
  "boardRules = matedRules\<lparr>isSamePosition := (\<lambda>g h. position g = position h)\<rparr>"

definition deadRules :: rules where
  "deadRules = matedRules\<lparr>isDeadPosition := (\<lambda>g. True)\<rparr>"

subsection \<open>Ancestors\<close>

text \<open>\<open>ancestry s x as\<close>: following the parent pointers from \<open>x\<close> (a parent pointer, possibly
  null) visits the nodes \<open>as\<close> in this order and ends at a node without parent.\<close>

inductive ancestry :: "store \<Rightarrow> nat option \<Rightarrow> nat list \<Rightarrow> bool" where
  ancestry_null: "ancestry s None []"
| ancestry_step: "s p = Some pn \<Longrightarrow> ancestry s (m_parent pn) as \<Longrightarrow> ancestry s (Some p) (p # as)"

text \<open>\<open>descends s d c\<close>: \<open>c\<close> is \<open>d\<close> itself or is reached from \<open>d\<close> along parent pointers.\<close>

inductive descends :: "store \<Rightarrow> nat \<Rightarrow> nat \<Rightarrow> bool" where
  descends_self: "s c = Some n \<Longrightarrow> descends s c c"
| descends_up: "s d = Some n \<Longrightarrow> m_parent n = Some q \<Longrightarrow> descends s q c \<Longrightarrow> descends s d c"

text \<open>
  What the specification says of back-propagation, in its words. The leaf: \<open>visited\<close> is
  incremented, which resets \<open>virtualLoss\<close> and invalidates \<open>uCoeff\<close>, and \<open>rawQValue\<close> is copied
  into \<open>qValue\<close>. The ancestor \<open>k\<close> plies above the parent (the parent is \<open>k = 0\<close>): the value
  entering it is the leaf's value with the sign flipped once per ply, and the running mean
  and the visit count are updated; the parent also receives the prior of a leaf that was
  unvisited.
\<close>

definition propagatedLeaf :: "node \<Rightarrow> node" where
  "propagatedLeaf n =
     n\<lparr>m_uCoeff := - 2, m_virtualLoss := 0, m_visited := m_visited n + 1,
       m_qValue := m_rawQValue n\<rparr>"

definition propagatedAncestor :: "node \<Rightarrow> nat \<Rightarrow> node \<Rightarrow> node" where
  "propagatedAncestor n k a =
     a\<lparr>m_policySum := (if k = 0 \<and> m_visited n = 0 then m_policySum a + m_pValue n
                        else m_policySum a),
       m_qValue := (real (m_visited a) * m_qValue a + (- 1) ^ (k + 1) * m_rawQValue n)
                     / (real (m_visited a) + 1),
       m_uCoeff := - 2, m_virtualLoss := 0, m_visited := m_visited a + 1\<rparr>"

text \<open>Repeated calls of \<open>setQValueAndPropagate\<close> on the same node.\<close>

fun propagateTimes :: "nat \<Rightarrow> store \<Rightarrow> nat \<Rightarrow> store option" where
  "propagateTimes 0 s i = Some s"
| "propagateTimes (Suc k) s i =
     Option.bind (setQValueAndPropagate s i) (\<lambda>s'. propagateTimes k s' i)"


text \<open>A scored root at address 0 with a scored child at address 1 and a fresh
  grandchild at address 2 whose raw value is \<open>1/2\<close>.\<close>

definition sampleRoot :: node where
  "sampleRoot = (Node None sampleGame)
     \<lparr>m_children := [1], m_visited := 2, m_qValue := 1/4, m_rawQValue := 0,
      m_pValue := 1, m_policySum := 1/2\<rparr>"

definition sampleChild :: node where
  "sampleChild = (Node (Some 0) sampleGame)
     \<lparr>m_children := [2], m_visited := 1, m_qValue := - 1/2, m_rawQValue := - 1/2,
      m_pValue := 1/2\<rparr>"

definition sampleLeaf :: node where
  "sampleLeaf = (Node (Some 1) sampleGame)
     \<lparr>m_virtualLoss := 1, m_rawQValue := 1/2, m_pValue := 1/4\<rparr>"

definition sampleChain :: store where
  "sampleChain = [0 \<mapsto> sampleRoot, 1 \<mapsto> sampleChild, 2 \<mapsto> sampleLeaf]"



definition drawnLeaf :: node where
  "drawnLeaf = generatePotentials matedRules 127 [] 2
                 ((Node (Some 1) (sampleGame\<lparr>halfMoveClock := 100\<rparr>))\<lparr>m_pValue := 1/4\<rparr>)"

definition drawnChain :: store where
  "drawnChain = sampleChain(2 \<mapsto> drawnLeaf)"

text \<open>
  The assignment of \<open>backPropagateValue\<close> when every binary32 operation rounds its result
  with \<open>rnd\<close>: the conversion of the visit count, the product, the sum, the conversion of
  the incremented count and the quotient. With \<open>rnd\<close> the identity this is
  \<open>backPropagateValue\<close>.
\<close>

definition backPropagateValueRounded :: "(real \<Rightarrow> real) \<Rightarrow> real \<Rightarrow> node \<Rightarrow> node" where
  "backPropagateValueRounded rnd v n =
     incrementVisited
       (n\<lparr>m_qValue := rnd (rnd (rnd (rnd (real (m_visited n)) * m_qValue n) + v)
                            / rnd (real (m_visited n + 1)))\<rparr>)"

section \<open>Properties\<close>

subsection \<open>Principal variation of a node without a prior\<close>

lemma principalVariation_unfold_unset:
  assumes "s i = Some n" and "\<not> isRootNode n" and "\<not> hasPValue n"
  shows "principalVariation moveToString sortByScore s i depth = Some ([], depth)"
  by (subst principalVariation.simps) (simp add: assms)

text \<open>
  C10. For every node of the store that is not the root and whose \<open>pValue\<close> is still unset,
  \<open>principalVariation\<close> returns the empty string and the depth counter it was given: the
  node's move is not emitted and the counter is not incremented.
\<close>

theorem principalVariation_unset_pValue:
  assumes "s i = Some n" and "\<not> isRootNode n" and "\<not> hasPValue n"
  shows "principalVariation moveToString sortByScore s i depth = Some ([], depth)"
  using assms by (rule principalVariation_unfold_unset)

theorem principalVariation_unset_pValue_witness:
  "freshPair 1 = Some (Node (Some 0) sampleGame) \<and> \<not> isRootNode (Node (Some 0) sampleGame)
   \<and> \<not> hasPValue (Node (Some 0) sampleGame)
   \<and> principalVariation (\<lambda>mv. ''e2e4'') (\<lambda>s xs. xs) freshPair 1 7 = Some ([], 7)"
proof -
  have a: "freshPair 1 = Some (Node (Some 0) sampleGame)" by (simp add: freshPair_def)
  have b: "\<not> isRootNode (Node (Some 0) sampleGame)" by (simp add: isRootNode_def Node_def)
  have c: "\<not> hasPValue (Node (Some 0) sampleGame)" by (simp add: hasPValue_def Node_def)
  show ?thesis
    using a b c
      principalVariation_unset_pValue [of freshPair 1 "Node (Some 0) sampleGame"
        "\<lambda>mv. ''e2e4''" "\<lambda>s xs. xs" 7]
    by simp
qed

subsection \<open>Virtual loss distance\<close>

lemma qFuzzyCompare_zero: "qFuzzyCompare x 0 \<longleftrightarrow> x = 0"
  by (simp add: qFuzzyCompare_def)

text \<open>With a non-negative exploration term \<open>p * uCoeff\<close> of the second candidate and
  \<open>q < wec\<close>, the value \<open>nf\<close> is at most one, so the function returns one.\<close>

lemma virtualLossDistance_degenerate:
  assumes "q < wec" and "0 \<le> p * uCoeff"
  shows "virtualLossDistance vldMax wec q p uCoeff = 1"
proof -
  have "- (q + p * uCoeff - wec) / (wec - q) \<le> 1"
    using assms by (simp add: field_simps)
  then have "\<lceil>- (q + p * uCoeff - wec) / (wec - q)\<rceil> \<le> 1"
    by (simp add: ceiling_le_iff)
  then have m: "max 1 \<lceil>- (q + p * uCoeff - wec) / (wec - q)\<rceil> = 1"
    by (rule max_absorb1)
  have c1: "\<not> qFuzzyCompare (wec - q) 0" using assms by (simp add: qFuzzyCompare_zero)
  have c2: "\<not> q > wec" using assms by simp
  show ?thesis unfolding virtualLossDistance_def Let_def using c1 c2 m by (simp only: if_False)
qed

text \<open>
  C1. The claim: when \<open>wec - q\<close> is neither near zero nor negative, the result is
  \<open>(q + p * uCoeff - wec) / (wec - q)\<close> rounded up and clamped to \<open>[1, vldMax]\<close>. At
  \<open>vldMax = 800\<close>, \<open>wec = 1\<close>, \<open>q = 0\<close>, \<open>p = 1/2\<close>, \<open>uCoeff = 8\<close> that value is 3, as the comment
  in the function derives it; the function negates the quotient and returns 1.
\<close>

theorem virtualLossDistance_negated_quotient:
  "virtualLossDistance 800 1 0 (1/2) 8 = 1
   \<and> max 1 (min 800 \<lceil>((0::real) + (1/2) * 8 - 1) / (1 - 0)\<rceil>) = (3::int)"
  by (simp add: virtualLossDistance_def qFuzzyCompare_def)

subsection \<open>Centipawn round trip\<close>

lemma arctan_diff_bounds:
  fixes x y :: real
  assumes "0 \<le> x" and "x < y"
  shows "(y - x) / (1 + y\<^sup>2) \<le> arctan y - arctan x" and "arctan y - arctan x \<le> y - x"
proof -
  have "\<exists>z. x < z \<and> z < y \<and> arctan y - arctan x = (y - x) * inverse (1 + z\<^sup>2)"
    using assms(2) by (rule MVT2) (rule DERIV_arctan)
  then obtain z where z: "x < z" "z < y" and eq: "arctan y - arctan x = (y - x) * inverse (1 + z\<^sup>2)"
    by blast
  have zpos: "0 \<le> z" using assms(1) z(1) by simp
  have "z\<^sup>2 \<le> y\<^sup>2" using zpos z(2) by (simp add: power_mono)
  then have "inverse (1 + y\<^sup>2) \<le> inverse (1 + z\<^sup>2)"
    by (intro le_imp_inverse_le) (simp_all add: add_pos_nonneg)
  then have "(y - x) * inverse (1 + y\<^sup>2) \<le> (y - x) * inverse (1 + z\<^sup>2)"
    using assms(2) by (intro mult_left_mono) simp_all
  then show "(y - x) / (1 + y\<^sup>2) \<le> arctan y - arctan x"
    by (simp add: eq divide_inverse)
  have "inverse (1 + z\<^sup>2) \<le> 1"
    by (intro inverse_le_1_iff[THEN iffD2]) simp
  then have "(y - x) * inverse (1 + z\<^sup>2) \<le> (y - x) * 1"
    using assms(2) by (intro mult_left_mono) simp_all
  then show "arctan y - arctan x \<le> y - x" by (simp add: eq)
qed

lemma arctan_lipschitz: "\<bar>arctan x - arctan y\<bar> \<le> \<bar>x - y\<bar>" for x y :: real
proof -
  have mvt: "\<bar>arctan b - arctan a\<bar> \<le> \<bar>b - a\<bar>" if "a < b" for a b :: real
  proof -
    have "\<exists>z. a < z \<and> z < b \<and> arctan b - arctan a = (b - a) * inverse (1 + z\<^sup>2)"
      using that by (rule MVT2) (rule DERIV_arctan)
    then obtain z where eq: "arctan b - arctan a = (b - a) * inverse (1 + z\<^sup>2)" by blast
    have i1: "inverse (1 + z\<^sup>2) \<le> 1" by (intro inverse_le_1_iff[THEN iffD2]) simp
    have i0: "0 \<le> inverse (1 + z\<^sup>2)" by (simp add: add_nonneg_nonneg)
    have "(b - a) * inverse (1 + z\<^sup>2) \<le> (b - a) * 1"
      using that i1 by (intro mult_left_mono) simp_all
    moreover have "0 \<le> (b - a) * inverse (1 + z\<^sup>2)"
      using that i0 by (intro mult_nonneg_nonneg) simp_all
    ultimately show ?thesis using that by (simp add: eq)
  qed
  consider "x < y" | "x = y" | "y < x" by linarith
  then show ?thesis
  proof cases
    case 1
    from mvt[OF 1] show ?thesis by (simp add: abs_minus_commute)
  next
    case 2
    then show ?thesis by simp
  next
    case 3
    from mvt[OF 3] show ?thesis by simp
  qed
qed

lemma pi_gt_31: "3.1 < pi"
proof -
  have a: "(1/10) / (1 + (1/10)\<^sup>2) \<le> arctan (1/10) - arctan 0"
    using arctan_diff_bounds(1)[of 0 "1/10"] by simp
  have b: "(1/5 - 1/10) / (1 + (1/5)\<^sup>2) \<le> arctan (1/5) - arctan (1/10)"
    by (rule arctan_diff_bounds(1)) simp_all
  have c: "arctan (1/239) - arctan 0 \<le> 1/239 - 0"
    using arctan_diff_bounds(2)[of 0 "1/239"] by simp
  have a': "10/101 \<le> arctan (1/10)" using a by (simp add: power2_eq_square)
  have b': "5/52 \<le> arctan (1/5) - arctan (1/10)" using b by (simp add: power2_eq_square)
  have c': "arctan (1/239) \<le> 1/239" using c by simp
  have "pi/4 = 4 * arctan (1/5) - arctan (1/239)" by (rule machin)
  then show ?thesis using a' b' c' by linarith
qed

lemma cpToScore_one_bounds: "0.0022 < cpToScore 1" "cpToScore 1 < 0.0023"
proof -
  let ?y = "1 / 290.680623072 :: real"
  have a: "(?y - 0) / (1 + ?y\<^sup>2) \<le> arctan ?y - arctan 0"
    by (rule arctan_diff_bounds(1)) simp_all
  have b: "arctan ?y - arctan 0 \<le> ?y - 0"
    by (rule arctan_diff_bounds(2)) simp_all
  have lo: "0.0022 * 1.548090806 < (?y - 0) / (1 + ?y\<^sup>2)"
    by (simp add: power2_eq_square field_simps)
  have hi: "?y - 0 < 0.0023 * 1.548090806" by simp
  from a lo have "0.0022 * 1.548090806 < arctan ?y" by simp
  then show "0.0022 < cpToScore 1" by (simp add: cpToScore_def field_simps)
  from b hi have "arctan ?y < 0.0023 * 1.548090806" by simp
  then show "cpToScore 1 < 0.0023" by (simp add: cpToScore_def field_simps)
qed

lemma roundtrip_gen:
  fixes a c q :: real
  assumes a: "0 < a" and c: "0 < c" and rng: "\<bar>a * q\<bar> < pi / 2"
  shows "\<bar>arctan (of_int (round (c * tan (a * q))) / c) / a - q\<bar> \<le> 1 / (2 * c * a)"
proof -
  define t where "t = tan (a * q)"
  define k :: real where "k = of_int (round (c * t))"
  have "- (pi / 2) < a * q" "a * q < pi / 2" using rng by (simp_all add: abs_less_iff)
  then have inv: "arctan t = a * q" unfolding t_def by (rule arctan_tan)
  have r: "\<bar>k - c * t\<bar> \<le> 1 / 2"
    unfolding k_def by (rule of_int_round_abs_le)
  have "k / c - t = (k - c * t) / c" using c by (simp add: field_simps)
  then have "\<bar>k / c - t\<bar> = \<bar>k - c * t\<bar> / c" using c by simp
  also have "\<dots> \<le> (1 / 2) / c" by (intro divide_right_mono) (use r c in simp_all)
  finally have d: "\<bar>k / c - t\<bar> \<le> (1 / 2) / c" .
  have "\<bar>arctan (k / c) - arctan t\<bar> \<le> \<bar>k / c - t\<bar>" by (rule arctan_lipschitz)
  with d have e: "\<bar>arctan (k / c) - a * q\<bar> \<le> (1 / 2) / c" by (simp add: inv)
  have "arctan (k / c) / a - q = (arctan (k / c) - a * q) / a" using a by (simp add: field_simps)
  then have "\<bar>arctan (k / c) / a - q\<bar> = \<bar>arctan (k / c) - a * q\<bar> / a" using a by simp
  also have "\<dots> \<le> ((1 / 2) / c) / a" by (intro divide_right_mono) (use e a in simp_all)
  also have "\<dots> = 1 / (2 * c * a)" by simp
  finally show ?thesis unfolding k_def t_def .
qed

lemma scoreToCP_below_half: "scoreToCP (11 / 10000) = 0"
proof -
  let ?y = "17201 / 10000000 :: real"
  have a: "(?y - 0) / (1 + ?y\<^sup>2) \<le> arctan ?y - arctan 0"
    by (rule arctan_diff_bounds(1)) simp_all
  have lo: "1.548090806 * 0.0011 < (?y - 0) / (1 + ?y\<^sup>2)"
    by (simp add: power2_eq_square field_simps)
  have x: "1.548090806 * 0.0011 < arctan ?y" using a lo by simp
  have "arctan ?y < pi / 2" by (rule arctan_ubound)
  with x have up: "1.548090806 * 0.0011 < pi / 2" by simp
  have "(0::real) \<le> 1.548090806 * 0.0011" by simp
  with pi_gt_zero have low: "- (pi / 2) < 1.548090806 * (0.0011::real)" by linarith
  have "arctan (tan (1.548090806 * 0.0011)) = 1.548090806 * (0.0011::real)"
    using low up by (rule arctan_tan)
  with x have "arctan (tan (1.548090806 * 0.0011)) < arctan ?y" by simp
  then have t1: "tan (1.548090806 * 0.0011) < ?y" by (simp only: arctan_less_iff)
  have t0: "0 \<le> tan (1.548090806 * (0.0011::real))"
    by (rule tan_pos_pi2_le) (use up in simp_all)
  define t where "t = tan (1.548090806 * (0.0011::real))"
  have "0 \<le> 290.680623072 * t" using t0 by (simp add: t_def)
  moreover have "290.680623072 * t < 1/2" using t1 by (simp add: t_def)
  ultimately have "round (290.680623072 * t) = 0"
    by (intro round_unique') simp
  then show ?thesis by (simp add: scoreToCP_def t_def)
qed

text \<open>
  C9. The conversion is \<open>scoreToCP q = round (290.680623072 * tan (1.548090806 * q))\<close> and
  \<open>cpToScore cp = arctan (cp / 290.680623072) / 1.548090806\<close>. Since \<open>scoreToCP\<close> rounds to a
  whole centipawn, the round trip does not return \<open>q\<close> up to floating-point tolerance; for
  \<open>\<bar>q\<bar> < 0.99\<close> it returns \<open>q\<close> up to half a centipawn, that is within
  \<open>1 / (2 * 290.680623072 * 1.548090806)\<close>, about \<open>0.00111\<close>.
\<close>

theorem cpToScore_scoreToCP_roundtrip:
  assumes "\<bar>q\<bar> < 0.99"
  shows "scoreToCP q = round (290.680623072 * tan (1.548090806 * q))
         \<and> cpToScore cp = arctan (real_of_int cp / 290.680623072) / 1.548090806
         \<and> \<bar>cpToScore (scoreToCP q) - q\<bar> \<le> 1 / (2 * 290.680623072 * 1.548090806)"
proof -
  have "\<bar>1.548090806 * q\<bar> < 1.55" using assms by (simp add: abs_mult)
  also have "\<dots> \<le> pi / 2" using pi_gt_31 by simp
  finally have rng: "\<bar>1.548090806 * q\<bar> < pi / 2" .
  have "\<bar>cpToScore (scoreToCP q) - q\<bar> \<le> 1 / (2 * 290.680623072 * 1.548090806)"
    unfolding cpToScore_def scoreToCP_def
    by (rule roundtrip_gen[OF _ _ rng]) simp_all
  then show ?thesis by (simp add: scoreToCP_def cpToScore_def)
qed

theorem cpToScore_scoreToCP_roundtrip_witness:
  "\<bar>1 / 2 :: real\<bar> < 0.99
   \<and> \<bar>cpToScore (scoreToCP (1 / 2)) - 1 / 2\<bar> \<le> 1 / (2 * 290.680623072 * 1.548090806)"
proof -
  have h: "\<bar>1 / 2 :: real\<bar> < 0.99" by simp
  have "\<bar>cpToScore (scoreToCP (1 / 2)) - 1 / 2\<bar> \<le> 1 / (2 * 290.680623072 * 1.548090806)"
    by (rule conjunct2 [OF conjunct2 [OF cpToScore_scoreToCP_roundtrip [OF h]]])
  with h show ?thesis by (rule conjI)
qed

text \<open>At \<open>q = 0.0011\<close> the score is below half a centipawn, \<open>scoreToCP\<close> rounds it to zero
  and the round trip returns zero: the error is \<open>0.0011\<close>.\<close>

theorem cpToScore_scoreToCP_roundtrip_counterexample:
  "\<bar>11 / 10000 :: real\<bar> < 0.99 \<and> scoreToCP (11 / 10000) = 0
   \<and> \<bar>cpToScore (scoreToCP (11 / 10000)) - 11 / 10000\<bar> > 1 / 1000"
  by (simp add: scoreToCP_below_half cpToScore_def)

subsection \<open>Terminal detection in generatePotentials\<close>

lemma afterRepetitionTest_eq:
  "afterRepetitionTest R hist n =
     n\<lparr>m_game := (m_game n)\<lparr>repetitionsCache := fst (repetitions R hist n)\<rparr>\<rparr>"
  by (simp add: afterRepetitionTest_def isThreeFold_def repetitions_def)

lemma afterRepetitionTest_fields:
  "m_potentials (afterRepetitionTest R hist n) = m_potentials n"
  "m_children (afterRepetitionTest R hist n) = m_children n"
  "m_parent (afterRepetitionTest R hist n) = m_parent n"
  "isRootNode (afterRepetitionTest R hist n) = isRootNode n"
  "hasPotentials (afterRepetitionTest R hist n) = hasPotentials n"
  by (simp_all add: afterRepetitionTest_eq isRootNode_def hasPotentials_def)

lemma generatePotential_frame:
  "\<exists>ps. generatePotential R n mv = n\<lparr>m_potentials := m_potentials n @ ps\<rparr>"
proof (cases "makeMove R (m_game n) mv")
  case None
  then have "generatePotential R n mv = n\<lparr>m_potentials := m_potentials n @ []\<rparr>"
    by (simp add: generatePotential_def)
  then show ?thesis by blast
next
  case (Some g)
  show ?thesis
  proof (cases "isChecked R g (activeArmy (m_game n))")
    case True
    with Some have "generatePotential R n mv = n\<lparr>m_potentials := m_potentials n @ []\<rparr>"
      by (simp add: generatePotential_def)
    then show ?thesis by blast
  next
    case False
    with Some show ?thesis by (auto simp add: generatePotential_def)
  qed
qed

lemma foldl_generatePotential_frame:
  "\<exists>ps. foldl (generatePotential R) n mvs = n\<lparr>m_potentials := m_potentials n @ ps\<rparr>"
proof (induction mvs arbitrary: n)
  case Nil
  have "foldl (generatePotential R) n [] = n\<lparr>m_potentials := m_potentials n @ []\<rparr>" by simp
  then show ?case by blast
next
  case (Cons mv mvs)
  obtain ps where a: "generatePotential R n mv = n\<lparr>m_potentials := m_potentials n @ ps\<rparr>"
    using generatePotential_frame by blast
  obtain qs where b: "foldl (generatePotential R) (generatePotential R n mv) mvs =
      (generatePotential R n mv)\<lparr>m_potentials := m_potentials (generatePotential R n mv) @ qs\<rparr>"
    using Cons.IH by blast
  have "foldl (generatePotential R) n (mv # mvs) = n\<lparr>m_potentials := m_potentials n @ (ps @ qs)\<rparr>"
    using b by (simp add: a)
  then show ?case by blast
qed

lemma foldl_generatePotential_none:
  assumes "\<not> hasPotentials (foldl (generatePotential R) n mvs)"
  shows "foldl (generatePotential R) n mvs = n"
proof -
  obtain ps where a: "foldl (generatePotential R) n mvs = n\<lparr>m_potentials := m_potentials n @ ps\<rparr>"
    using foldl_generatePotential_frame by blast
  with assms have "m_potentials n @ ps = []" by (simp add: hasPotentials_def)
  then have "m_potentials n @ ps = m_potentials n" by simp
  with a show ?thesis by simp
qed

text \<open>The three draws by rule.\<close>

lemma generatePotentials_draw:
  assumes "\<not> hasPotentials n"
    and "halfMoveClock (m_game n) \<ge> 100 \<or> isDeadPosition R (m_game n)
         \<or> fst (isThreeFold R hist n)"
  shows "generatePotentials R MAX_DEPTH hist depth n =
     n\<lparr>m_game := (if halfMoveClock (m_game n) \<ge> 100 \<or> isDeadPosition R (m_game n)
                   then m_game n else m_game (afterRepetitionTest R hist n)),
       m_rawQValue := 0, m_isExact := True\<rparr>"
  using assms
  by (auto simp add: generatePotentials_def afterRepetitionTest_eq afterRepetitionTest_def [symmetric])

text \<open>A tablebase hit.\<close>

lemma generatePotentials_tablebase:
  assumes "passesDrawTests R hist n" and "\<not> isRootNode n"
    and "tbProbe R (m_game (afterRepetitionTest R hist n)) \<noteq> NotFound"
  shows "generatePotentials R MAX_DEPTH hist depth n =
     (afterRepetitionTest R hist n)
       \<lparr>m_rawQValue :=
          (if tbProbe R (m_game (afterRepetitionTest R hist n)) = Win then 1 - cpToScore 1
           else if tbProbe R (m_game (afterRepetitionTest R hist n)) = Loss
             then - 1 + cpToScore 1
           else 0),
        m_isExact := True, m_isTB := True\<rparr>"
proof -
  have r: "\<not> isRootNode (afterRepetitionTest R hist n)"
    using assms(2) by (simp add: afterRepetitionTest_fields)
  show ?thesis
    using assms(1,3) r
    by (cases "tbProbe R (m_game (afterRepetitionTest R hist n))")
       (simp_all add: generatePotentials_def passesDrawTests_def Let_def
          afterRepetitionTest_def [symmetric])
qed

text \<open>Checkmate and stalemate.\<close>

lemma generatePotentials_noLegalMove:
  assumes "noLegalMove R hist n"
  shows "generatePotentials R MAX_DEPTH hist depth n =
     (if sideToMoveInCheck R hist n
      then (afterRepetitionTest R hist n)
             \<lparr>m_game := (m_game (afterRepetitionTest R hist n))\<lparr>checkMate := True\<rparr>,
              m_rawQValue := 1 + real MAX_DEPTH * 0.0001 - real depth * 0.0001,
              m_isExact := True\<rparr>
      else (afterRepetitionTest R hist n)
             \<lparr>m_game := (m_game (afterRepetitionTest R hist n))\<lparr>staleMate := True\<rparr>,
              m_rawQValue := 0, m_isExact := True\<rparr>)"
proof -
  let ?n1 = "afterRepetitionTest R hist n"
  let ?n2 = "foldl (generatePotential R) ?n1 (pseudoLegalMoves R (m_game ?n1))"
  have np: "\<not> hasPotentials ?n2" using assms by (simp add: noLegalMove_def)
  then have eq: "?n2 = ?n1" by (rule foldl_generatePotential_none)
  have res: "(if isRootNode ?n1 then NotFound else tbProbe R (m_game ?n1)) = NotFound"
    using assms by (simp add: noLegalMove_def afterRepetitionTest_fields split: if_splits)
  have pd: "passesDrawTests R hist n" using assms by (simp add: noLegalMove_def)
  have np1: "\<not> hasPotentials ?n1" using np eq by simp
  show ?thesis
    using pd
    by (simp add: generatePotentials_def passesDrawTests_def Let_def
         afterRepetitionTest_def [symmetric] res eq np1 sideToMoveInCheck_def)
qed

text \<open>
  C7. Called on a node without potentials and without children whose halfmove clock is
  at least 100, \<open>generatePotentials\<close> sets \<open>rawQValue = 0\<close> and \<open>isExact\<close> and changes nothing
  else: the result does not depend on the tablebase or on the move generator, \<open>isTB\<close>
  keeps its value, and the node ends with no potentials and no children. A dead position
  gives the same result, and so does a threefold repetition; the repetition test comes
  last, so only in that case the game holds the cached repetition count.
\<close>

theorem generatePotentials_draw_by_rule:
  assumes "\<not> hasPotentials n" and "\<not> hasChildren n"
    and "halfMoveClock (m_game n) \<ge> 100 \<or> isDeadPosition R (m_game n)
         \<or> fst (isThreeFold R hist n)"
  shows "generatePotentials R MAX_DEPTH hist depth n =
           n\<lparr>m_game := (if halfMoveClock (m_game n) \<ge> 100 \<or> isDeadPosition R (m_game n)
                         then m_game n else m_game (afterRepetitionTest R hist n)),
             m_rawQValue := 0, m_isExact := True\<rparr>
         \<and> m_rawQValue (generatePotentials R MAX_DEPTH hist depth n) = 0
         \<and> m_isExact (generatePotentials R MAX_DEPTH hist depth n)
         \<and> m_isTB (generatePotentials R MAX_DEPTH hist depth n) = m_isTB n
         \<and> m_potentials (generatePotentials R MAX_DEPTH hist depth n) = []
         \<and> m_children (generatePotentials R MAX_DEPTH hist depth n) = []"
proof -
  note eq = generatePotentials_draw [OF assms(1,3), of MAX_DEPTH depth]
  have "m_potentials n = []" "m_children n = []"
    using assms(1,2) by (simp_all add: hasPotentials_def hasChildren_def)
  then show ?thesis by (simp add: eq)
qed

theorem generatePotentials_draw_by_rule_witness:
  "(\<not> hasPotentials (Node (Some 0) (sampleGame\<lparr>halfMoveClock := 100\<rparr>))
    \<and> \<not> hasChildren (Node (Some 0) (sampleGame\<lparr>halfMoveClock := 100\<rparr>))
    \<and> halfMoveClock (m_game (Node (Some 0) (sampleGame\<lparr>halfMoveClock := 100\<rparr>))) \<ge> 100
    \<and> generatePotentials (tbRules Win) 127 [] 1 (Node (Some 0) (sampleGame\<lparr>halfMoveClock := 100\<rparr>))
        = (Node (Some 0) (sampleGame\<lparr>halfMoveClock := 100\<rparr>))\<lparr>m_rawQValue := 0, m_isExact := True\<rparr>)
   \<and> (isDeadPosition deadRules (m_game (Node (Some 0) sampleGame))
    \<and> generatePotentials deadRules 127 [] 1 (Node (Some 0) sampleGame)
        = (Node (Some 0) sampleGame)\<lparr>m_rawQValue := 0, m_isExact := True\<rparr>)
   \<and> (fst (isThreeFold boardRules
             [sampleGame\<lparr>halfMoveClock := 3\<rparr>, sampleGame\<lparr>halfMoveClock := 2\<rparr>]
             (Node (Some 0) (sampleGame\<lparr>halfMoveClock := 4\<rparr>)))
    \<and> generatePotentials boardRules 127
          [sampleGame\<lparr>halfMoveClock := 3\<rparr>, sampleGame\<lparr>halfMoveClock := 2\<rparr>] 1
          (Node (Some 0) (sampleGame\<lparr>halfMoveClock := 4\<rparr>))
        = (Node (Some 0) (sampleGame\<lparr>halfMoveClock := 4, repetitionsCache := 2\<rparr>))
            \<lparr>m_rawQValue := 0, m_isExact := True\<rparr>)"
proof -
  let ?a = "Node (Some 0) (sampleGame\<lparr>halfMoveClock := 100\<rparr>)"
  let ?b = "Node (Some 0) sampleGame"
  let ?c = "Node (Some 0) (sampleGame\<lparr>halfMoveClock := 4\<rparr>)"
  let ?h = "[sampleGame\<lparr>halfMoveClock := 3\<rparr>, sampleGame\<lparr>halfMoveClock := 2\<rparr>]"
  have a1: "\<not> hasPotentials ?a" "\<not> hasChildren ?a"
    by (simp_all add: hasPotentials_def hasChildren_def Node_def)
  have a2: "halfMoveClock (m_game ?a) \<ge> 100" by (simp add: Node_def)
  have b1: "\<not> hasPotentials ?b" "\<not> hasChildren ?b"
    by (simp_all add: hasPotentials_def hasChildren_def Node_def)
  have b2: "isDeadPosition deadRules (m_game ?b)" by (simp add: deadRules_def)
  have c1: "\<not> hasPotentials ?c" "\<not> hasChildren ?c"
    by (simp_all add: hasPotentials_def hasChildren_def Node_def)
  have c2: "fst (isThreeFold boardRules ?h ?c)"
    by (simp add: isThreeFold_def repetitions_def boardRules_def matedRules_def Node_def
          sampleGame_def)
  have ra: "generatePotentials (tbRules Win) 127 [] 1 ?a = ?a\<lparr>m_rawQValue := 0, m_isExact := True\<rparr>"
    using generatePotentials_draw_by_rule [of ?a "tbRules Win" "[]" 127 1] a1 a2 by simp
  have rb: "generatePotentials deadRules 127 [] 1 ?b = ?b\<lparr>m_rawQValue := 0, m_isExact := True\<rparr>"
    using generatePotentials_draw_by_rule [of ?b deadRules "[]" 127 1] b1 b2 by simp
  have rc: "generatePotentials boardRules 127 ?h 1 ?c
      = (Node (Some 0) (sampleGame\<lparr>halfMoveClock := 4, repetitionsCache := 2\<rparr>))
          \<lparr>m_rawQValue := 0, m_isExact := True\<rparr>"
    using generatePotentials_draw_by_rule [of ?c boardRules ?h 127 1] c1 c2
    by (simp add: afterRepetitionTest_def isThreeFold_def repetitions_def boardRules_def
          matedRules_def Node_def sampleGame_def)
  show ?thesis using a1 a2 b2 c2 ra rb rc by simp
qed

text \<open>
  C4. When the call reaches move generation and no potential is produced: if the side
  to move is in check, the game is marked checkmate, \<open>isExact\<close> is set and
  \<open>rawQValue = 1 + (MAX_DEPTH - depth) * 1e-4\<close>, so of two such nodes the shallower one has
  the strictly higher \<open>rawQValue\<close>; if it is not in check, the game is marked stalemate,
  \<open>isExact\<close> is set and \<open>rawQValue = 0\<close>.
\<close>

theorem generatePotentials_checkmate_stalemate:
  assumes "noLegalMove R hist n" and "noLegalMove R' hist' n'" and "depth < depth'"
  shows "generatePotentials R MAX_DEPTH hist depth n =
           (if sideToMoveInCheck R hist n
            then (afterRepetitionTest R hist n)
                   \<lparr>m_game := (m_game (afterRepetitionTest R hist n))\<lparr>checkMate := True\<rparr>,
                    m_rawQValue := 1 + (real MAX_DEPTH - real depth) * 0.0001,
                    m_isExact := True\<rparr>
            else (afterRepetitionTest R hist n)
                   \<lparr>m_game := (m_game (afterRepetitionTest R hist n))\<lparr>staleMate := True\<rparr>,
                    m_rawQValue := 0, m_isExact := True\<rparr>)
         \<and> (sideToMoveInCheck R hist n \<and> sideToMoveInCheck R' hist' n' \<longrightarrow>
              m_rawQValue (generatePotentials R' MAX_DEPTH hist' depth' n')
                < m_rawQValue (generatePotentials R MAX_DEPTH hist depth n))"
proof -
  note a = generatePotentials_noLegalMove [OF assms(1), of MAX_DEPTH depth]
  note b = generatePotentials_noLegalMove [OF assms(2), of MAX_DEPTH depth']
  have "real depth < real depth'" using assms(3) by simp
  then show ?thesis by (simp add: a b diff_divide_distrib)
qed

text \<open>The sample node has no legal move under \<open>matedRules\<close> and \<open>staleRules\<close>.\<close>

lemma sample_noLegalMove:
  "noLegalMove matedRules [] (Node (Some 0) sampleGame)"
  "noLegalMove staleRules [] (Node (Some 0) sampleGame)"
  "sideToMoveInCheck matedRules [] (Node (Some 0) sampleGame)"
  "\<not> sideToMoveInCheck staleRules [] (Node (Some 0) sampleGame)"
  "afterRepetitionTest matedRules [] (Node (Some 0) sampleGame)
     = Node (Some 0) (sampleGame\<lparr>repetitionsCache := 0\<rparr>)"
  "afterRepetitionTest staleRules [] (Node (Some 0) sampleGame)
     = Node (Some 0) (sampleGame\<lparr>repetitionsCache := 0\<rparr>)"
  by (simp_all add: noLegalMove_def passesDrawTests_def sideToMoveInCheck_def
        afterRepetitionTest_def isThreeFold_def repetitions_def hasPotentials_def
        isRootNode_def matedRules_def staleRules_def Node_def sampleGame_def)

theorem generatePotentials_checkmate_stalemate_witness:
  "noLegalMove matedRules [] (Node (Some 0) sampleGame) \<and> (2::nat) < 3
   \<and> sideToMoveInCheck matedRules [] (Node (Some 0) sampleGame)
   \<and> m_rawQValue (generatePotentials matedRules 127 [] 2 (Node (Some 0) sampleGame))
       = 1 + (127 - 2) * 0.0001
   \<and> m_isExact (generatePotentials matedRules 127 [] 2 (Node (Some 0) sampleGame))
   \<and> checkMate (m_game (generatePotentials matedRules 127 [] 2 (Node (Some 0) sampleGame)))
   \<and> m_rawQValue (generatePotentials matedRules 127 [] 3 (Node (Some 0) sampleGame))
       < m_rawQValue (generatePotentials matedRules 127 [] 2 (Node (Some 0) sampleGame))
   \<and> noLegalMove staleRules [] (Node (Some 0) sampleGame)
   \<and> \<not> sideToMoveInCheck staleRules [] (Node (Some 0) sampleGame)
   \<and> m_rawQValue (generatePotentials staleRules 127 [] 2 (Node (Some 0) sampleGame)) = 0
   \<and> m_isExact (generatePotentials staleRules 127 [] 2 (Node (Some 0) sampleGame))
   \<and> staleMate (m_game (generatePotentials staleRules 127 [] 2 (Node (Some 0) sampleGame)))"
proof -
  let ?n = "Node (Some 0) sampleGame"
  have lt: "(2::nat) < 3" by simp
  note m = generatePotentials_checkmate_stalemate
             [OF sample_noLegalMove(1) sample_noLegalMove(1) lt, of 127]
  note st = generatePotentials_checkmate_stalemate
             [OF sample_noLegalMove(2) sample_noLegalMove(2) lt, of 127]
  note m0 = conjunct1 [OF m]
  note st0 = conjunct1 [OF st]
  have m1: "m_rawQValue (generatePotentials matedRules 127 [] 2 ?n) = 1 + (127 - 2) * 0.0001"
    "m_isExact (generatePotentials matedRules 127 [] 2 ?n)"
    "checkMate (m_game (generatePotentials matedRules 127 [] 2 ?n))"
    using sample_noLegalMove(3) by (simp_all add: m0)
  have m2: "m_rawQValue (generatePotentials matedRules 127 [] 3 ?n)
       < m_rawQValue (generatePotentials matedRules 127 [] 2 ?n)"
    using conjunct2 [OF m] sample_noLegalMove(3) by blast
  have s1: "m_rawQValue (generatePotentials staleRules 127 [] 2 ?n) = 0"
    "m_isExact (generatePotentials staleRules 127 [] 2 ?n)"
    "staleMate (m_game (generatePotentials staleRules 127 [] 2 ?n))"
    using sample_noLegalMove(4) by (simp_all add: st0)
  show ?thesis
    using sample_noLegalMove(1,2,3,4) lt m1 m2 s1 by blast
qed

text \<open>The sample node under a tablebase that answers \<open>r\<close>.\<close>

lemma sample_tablebase:
  "passesDrawTests (tbRules r) [] (Node (Some 0) sampleGame)"
  "\<not> isRootNode (Node (Some 0) sampleGame)"
  "tbProbe (tbRules r) g = r"
  "afterRepetitionTest (tbRules r) [] (Node (Some 0) sampleGame)
     = Node (Some 0) (sampleGame\<lparr>repetitionsCache := 0\<rparr>)"
  by (simp_all add: passesDrawTests_def afterRepetitionTest_def isThreeFold_def
        repetitions_def hasPotentials_def isRootNode_def matedRules_def tbRules_def
        Node_def sampleGame_def)

text \<open>
  C5. On a node that is not the root and gets past the draw tests, a tablebase hit sets
  \<open>isExact\<close> and \<open>isTB\<close>, and \<open>rawQValue\<close> becomes \<open>1 - cpToScore 1\<close> for a win,
  \<open>- 1 + cpToScore 1\<close> for a loss and \<open>0\<close> for a draw. The value of a tablebase win is
  strictly below the checkmate value \<open>1 + (MAX_DEPTH - depth) * 1e-4\<close> for every depth up to
  \<open>MAX_DEPTH + 22\<close>, in particular for every depth up to \<open>MAX_DEPTH\<close>. (It is not below it at
  every depth: \<open>cpToScore 1\<close> is about \<open>0.00222\<close>, and 23 plies beyond \<open>MAX_DEPTH\<close> the checkmate
  value has sunk to \<open>0.9977\<close>.)
\<close>

theorem generatePotentials_tablebase_below_checkmate:
  assumes "passesDrawTests R hist n" and "\<not> isRootNode n"
    and "tbProbe R (m_game (afterRepetitionTest R hist n)) \<noteq> NotFound"
    and "noLegalMove R' hist' n'" and "sideToMoveInCheck R' hist' n'"
    and "depth' \<le> MAX_DEPTH + 22"
  shows "generatePotentials R MAX_DEPTH hist depth n =
           (afterRepetitionTest R hist n)
             \<lparr>m_rawQValue :=
                (if tbProbe R (m_game (afterRepetitionTest R hist n)) = Win
                   then 1 - cpToScore 1
                 else if tbProbe R (m_game (afterRepetitionTest R hist n)) = Loss
                   then - 1 + cpToScore 1
                 else 0),
              m_isExact := True, m_isTB := True\<rparr>
         \<and> (tbProbe R (m_game (afterRepetitionTest R hist n)) = Win \<longrightarrow>
              m_rawQValue (generatePotentials R MAX_DEPTH hist depth n)
                < m_rawQValue (generatePotentials R' MAX_DEPTH hist' depth' n'))"
proof -
  note tb = generatePotentials_tablebase [OF assms(1,2,3), of MAX_DEPTH depth]
  note mate = generatePotentials_noLegalMove [OF assms(4), of MAX_DEPTH depth']
  have "real depth' \<le> real MAX_DEPTH + 22" using assms(6) by linarith
  then have "1 - 0.0022 \<le> 1 + real MAX_DEPTH * 0.0001 - real depth' * 0.0001" by simp
  moreover have "1 - cpToScore 1 < 1 - 0.0022" using cpToScore_one_bounds(1) by simp
  ultimately have lt: "1 - cpToScore 1 < 1 + real MAX_DEPTH * 0.0001 - real depth' * 0.0001"
    by linarith
  have r: "m_rawQValue (generatePotentials R' MAX_DEPTH hist' depth' n')
             = 1 + real MAX_DEPTH * 0.0001 - real depth' * 0.0001"
    using assms(5) by (simp add: mate)
  show ?thesis
    unfolding r using lt by (simp add: tb)
qed

theorem generatePotentials_tablebase_below_checkmate_witness:
  "passesDrawTests (tbRules Win) [] (Node (Some 0) sampleGame)
   \<and> \<not> isRootNode (Node (Some 0) sampleGame)
   \<and> tbProbe (tbRules Win) (m_game (afterRepetitionTest (tbRules Win) [] (Node (Some 0) sampleGame)))
        \<noteq> NotFound
   \<and> noLegalMove matedRules [] (Node (Some 0) sampleGame)
   \<and> sideToMoveInCheck matedRules [] (Node (Some 0) sampleGame)
   \<and> (127::nat) \<le> 127 + 22
   \<and> generatePotentials (tbRules Win) 127 [] 3 (Node (Some 0) sampleGame)
        = (Node (Some 0) (sampleGame\<lparr>repetitionsCache := 0\<rparr>))
            \<lparr>m_rawQValue := 1 - cpToScore 1, m_isExact := True, m_isTB := True\<rparr>
   \<and> m_rawQValue (generatePotentials (tbRules Win) 127 [] 3 (Node (Some 0) sampleGame))
        < m_rawQValue (generatePotentials matedRules 127 [] 127 (Node (Some 0) sampleGame))"
proof -
  let ?n = "Node (Some 0) sampleGame"
  have p: "tbProbe (tbRules Win) (m_game (afterRepetitionTest (tbRules Win) [] ?n)) \<noteq> NotFound"
    by (simp add: sample_tablebase(3))
  have le: "(127::nat) \<le> 127 + 22" by simp
  note t = generatePotentials_tablebase_below_checkmate
      [OF sample_tablebase(1) sample_tablebase(2) p sample_noLegalMove(1)
          sample_noLegalMove(3) le, of 3]
  have t1: "generatePotentials (tbRules Win) 127 [] 3 ?n
        = (Node (Some 0) (sampleGame\<lparr>repetitionsCache := 0\<rparr>))
            \<lparr>m_rawQValue := 1 - cpToScore 1, m_isExact := True, m_isTB := True\<rparr>"
    using conjunct1 [OF t] by (simp add: sample_tablebase(3,4))
  have pw: "tbProbe (tbRules Win) (m_game (afterRepetitionTest (tbRules Win) [] ?n)) = Win"
    by (simp add: sample_tablebase(3))
  have t2: "m_rawQValue (generatePotentials (tbRules Win) 127 [] 3 ?n)
        < m_rawQValue (generatePotentials matedRules 127 [] 127 ?n)"
    using conjunct2 [OF t] pw by (rule mp)
  show ?thesis
    using sample_tablebase(1,2) p sample_noLegalMove(1,3) le t1 t2 by blast
qed

text \<open>With \<open>MAX_DEPTH = 127\<close>, a checkmate found at depth 150 is valued below a tablebase
  win.\<close>

theorem generatePotentials_tablebase_below_checkmate_counterexample:
  "passesDrawTests (tbRules Win) [] (Node (Some 0) sampleGame)
   \<and> \<not> isRootNode (Node (Some 0) sampleGame)
   \<and> tbProbe (tbRules Win) (m_game (afterRepetitionTest (tbRules Win) [] (Node (Some 0) sampleGame)))
        = Win
   \<and> noLegalMove matedRules [] (Node (Some 0) sampleGame)
   \<and> sideToMoveInCheck matedRules [] (Node (Some 0) sampleGame)
   \<and> m_rawQValue (generatePotentials matedRules 127 [] 150 (Node (Some 0) sampleGame))
        < m_rawQValue (generatePotentials (tbRules Win) 127 [] 3 (Node (Some 0) sampleGame))"
proof -
  let ?n = "Node (Some 0) sampleGame"
  have p: "tbProbe (tbRules Win) (m_game (afterRepetitionTest (tbRules Win) [] ?n)) = Win"
    by (simp add: sample_tablebase(3))
  then have p': "tbProbe (tbRules Win) (m_game (afterRepetitionTest (tbRules Win) [] ?n)) \<noteq> NotFound"
    by simp
  have a: "m_rawQValue (generatePotentials (tbRules Win) 127 [] 3 ?n) = 1 - cpToScore 1"
    by (simp add: generatePotentials_tablebase [OF sample_tablebase(1) sample_tablebase(2) p'] p)
  have b: "m_rawQValue (generatePotentials matedRules 127 [] 150 ?n) = 1 - 0.0023"
    using sample_noLegalMove(3)
    by (simp add: generatePotentials_noLegalMove [OF sample_noLegalMove(1)])
  have "m_rawQValue (generatePotentials matedRules 127 [] 150 ?n)
        < m_rawQValue (generatePotentials (tbRules Win) 127 [] 3 ?n)"
    unfolding a b using cpToScore_one_bounds(2) by simp
  then show ?thesis
    using sample_tablebase(1,2) p sample_noLegalMove(1,3) by blast
qed

subsection \<open>Parent chains\<close>

inductive_cases ancestry_NoneE: "ancestry s None anc"

inductive_cases ancestry_SomeE: "ancestry s (Some p) anc"

lemma ancestry_unique: "ancestry s x anc \<Longrightarrow> ancestry s x bs \<Longrightarrow> anc = bs"
proof (induction arbitrary: bs rule: ancestry.induct)
  case (ancestry_null s)
  then show ?case by (auto elim: ancestry_NoneE)
next
  case (ancestry_step s p pn anc)
  from ancestry_step.prems obtain pn' cs where
    "s p = Some pn'" "bs = p # cs" "ancestry s (m_parent pn') cs"
    by (auto elim: ancestry_SomeE)
  with ancestry_step.hyps ancestry_step.IH show ?case by simp
qed

lemma ancestry_suffix:
  "ancestry s x (xs @ p # ys) \<Longrightarrow> ancestry s (Some p) (p # ys)"
proof (induction xs arbitrary: x)
  case Nil
  then show ?case by (cases rule: ancestry.cases) (auto intro: ancestry.intros)
next
  case (Cons a xs)
  from Cons.prems show ?case
    by (cases rule: ancestry.cases) (auto intro: Cons.IH)
qed

lemma ancestry_distinct: "ancestry s x anc \<Longrightarrow> distinct anc"
proof (induction rule: ancestry.induct)
  case (ancestry_null s)
  then show ?case by simp
next
  case (ancestry_step s p pn anc)
  have "p \<notin> set anc"
  proof
    assume "p \<in> set anc"
    then obtain xs ys where split: "anc = xs @ p # ys" by (auto simp add: in_set_conv_decomp)
    with ancestry_step.hyps(2) have "ancestry s (Some p) (p # ys)"
      by (auto dest: ancestry_suffix)
    moreover have "ancestry s (Some p) (p # anc)"
      using ancestry_step.hyps by (rule ancestry.ancestry_step)
    ultimately have "p # ys = p # anc" by (rule ancestry_unique)
    with split show False by simp
  qed
  with ancestry_step.IH show ?case by simp
qed

lemma ancestry_not_self:
  assumes "s i = Some n" and "ancestry s (m_parent n) anc"
  shows "i \<notin> set anc"
proof -
  have "ancestry s (Some i) (i # anc)" using assms by (rule ancestry_step)
  then have "distinct (i # anc)" by (rule ancestry_distinct)
  then show ?thesis by simp
qed

text \<open>A store that keeps the parent pointers along a chain keeps the chain.\<close>

lemma ancestry_frame:
  assumes "ancestry s x anc"
    and "\<And>j a. j \<in> set anc \<Longrightarrow> s j = Some a \<Longrightarrow> \<exists>a'. s' j = Some a' \<and> m_parent a' = m_parent a"
  shows "ancestry s' x anc"
  using assms
proof (induction rule: ancestry.induct)
  case (ancestry_null s)
  show ?case by (rule ancestry.ancestry_null)
next
  case (ancestry_step s p pn anc)
  obtain a' where a': "s' p = Some a'" "m_parent a' = m_parent pn"
    using ancestry_step.prems [of p pn] ancestry_step.hyps(1) by auto
  have "ancestry s' (m_parent pn) anc"
    by (rule ancestry_step.IH) (use ancestry_step.prems in auto)
  with a' show ?case by (auto intro: ancestry.ancestry_step)
qed

lemma ancestry_nth:
  "ancestry s x anc \<Longrightarrow> k < length anc \<Longrightarrow> \<exists>a. s (anc ! k) = Some a"
proof (induction arbitrary: k rule: ancestry.induct)
  case (ancestry_null s)
  then show ?case by simp
next
  case (ancestry_step s p pn anc)
  then show ?case by (cases k) auto
qed

subsection \<open>The back-propagation loop\<close>

lemma backPropagateValue_parent [simp]: "m_parent (backPropagateValue v a) = m_parent a"
  by (simp add: backPropagateValue_def incrementVisited_def)

lemma backPropagateLoop_ancestry:
  "ancestry s x anc \<Longrightarrow>
   \<exists>s'. backPropagateLoop s v x = Some s'
           \<and> (\<forall>k<length anc. \<exists>a. s (anc ! k) = Some a
                  \<and> s' (anc ! k) = Some (backPropagateValue ((- 1) ^ (k + 1) * v) a))
           \<and> (\<forall>j. j \<notin> set anc \<longrightarrow> s' j = s j)"
proof (induction anc arbitrary: s v x)
  case Nil
  then have "x = None" by (cases rule: ancestry.cases) simp_all
  then show ?case by (subst backPropagateLoop.simps) simp
next
  case (Cons p anc)
  from Cons.prems obtain pn where x: "x = Some p" and pn: "s p = Some pn"
    and rest: "ancestry s (m_parent pn) anc"
    by (cases rule: ancestry.cases) auto
  from Cons.prems have "distinct (p # anc)" by (rule ancestry_distinct)
  then have pnot: "p \<notin> set anc" by simp
  let ?s1 = "s(p \<mapsto> backPropagateValue (- v) pn)"
  have "ancestry ?s1 (m_parent pn) anc"
    using rest by (rule ancestry_frame) (use pnot in auto)
  from Cons.IH [OF this, of "- v"] obtain s' where
    run: "backPropagateLoop ?s1 (- v) (m_parent pn) = Some s'"
    and upd: "\<And>k. k < length anc \<Longrightarrow> \<exists>a. ?s1 (anc ! k) = Some a
                  \<and> s' (anc ! k) = Some (backPropagateValue ((- 1) ^ (k + 1) * (- v)) a)"
    and frame: "\<And>j. j \<notin> set anc \<Longrightarrow> s' j = ?s1 j"
    by blast
  have loop: "backPropagateLoop s v x = Some s'"
    by (subst backPropagateLoop.simps) (simp add: x pn run)
  have at: "\<exists>a. s ((p # anc) ! k) = Some a
                  \<and> s' ((p # anc) ! k) = Some (backPropagateValue ((- 1) ^ (k + 1) * v) a)"
    if "k < length (p # anc)" for k
  proof (cases k)
    case 0
    then show ?thesis using frame [OF pnot] pn by simp
  next
    case (Suc k')
    then have k': "k' < length anc" using that by simp
    then have "anc ! k' \<in> set anc" by simp
    with pnot have ne: "anc ! k' \<noteq> p" by auto
    from upd [OF k'] ne show ?thesis by (simp add: Suc)
  qed
  have "s' j = s j" if "j \<notin> set (p # anc)" for j
    using frame [of j] that by simp
  with loop at show ?case by blast
qed

subsection \<open>setQValueAndPropagate\<close>

lemma policySum_step:
  assumes "s i = Some n" and "ancestry s (m_parent n) anc"
  shows "\<exists>s1. (case m_parent n of
                 None \<Rightarrow> Some s
               | Some p \<Rightarrow>
                   if m_visited n = 0
                     then onNode (\<lambda>pn. pn\<lparr>m_policySum := m_policySum pn + m_pValue n\<rparr>) s p
                   else Some s) = Some s1
           \<and> (\<forall>k<length anc. \<exists>a. s (anc ! k) = Some a
                  \<and> s1 (anc ! k) =
                      Some (a\<lparr>m_policySum := (if k = 0 \<and> m_visited n = 0
                                                then m_policySum a + m_pValue n
                                                else m_policySum a)\<rparr>))
           \<and> (\<forall>j. j \<notin> set anc \<longrightarrow> s1 j = s j)"
proof (cases "m_parent n")
  case None
  with assms(2) have "anc = []" by (auto elim: ancestry_NoneE)
  with None show ?thesis by simp
next
  case (Some p)
  with assms(2) obtain pn bs where pn: "s p = Some pn" and anc: "anc = p # bs"
    and rest: "ancestry s (m_parent pn) bs"
    by (auto elim: ancestry_SomeE)
  from assms(2) have "distinct anc" by (rule ancestry_distinct)
  with anc have pnot: "p \<notin> set bs" by simp
  have ex: "\<exists>a. s (anc ! k) = Some a" if "k < length anc" for k
    using assms(2) that by (rule ancestry_nth)
  show ?thesis
  proof (cases "m_visited n = 0")
    case True
    let ?s1 = "s(p \<mapsto> pn\<lparr>m_policySum := m_policySum pn + m_pValue n\<rparr>)"
    have run: "(case m_parent n of
                 None \<Rightarrow> Some s
               | Some p \<Rightarrow>
                   if m_visited n = 0
                     then onNode (\<lambda>pn. pn\<lparr>m_policySum := m_policySum pn + m_pValue n\<rparr>) s p
                   else Some s) = Some ?s1"
      by (simp add: Some True onNode_def pn)
    have at: "\<exists>a. s (anc ! k) = Some a
                  \<and> ?s1 (anc ! k) =
                      Some (a\<lparr>m_policySum := (if k = 0 \<and> m_visited n = 0
                                                then m_policySum a + m_pValue n
                                                else m_policySum a)\<rparr>)"
      if "k < length anc" for k
    proof (cases k)
      case 0
      then show ?thesis by (simp add: anc pn True)
    next
      case (Suc k')
      then have "bs ! k' \<in> set bs" using that anc by simp
      with pnot have "bs ! k' \<noteq> p" by auto
      then show ?thesis using ex [OF that] by (auto simp add: anc Suc)
    qed
    have "?s1 j = s j" if "j \<notin> set anc" for j using that anc by simp
    with run at show ?thesis by blast
  next
    case False
    have run: "(case m_parent n of
                 None \<Rightarrow> Some s
               | Some p \<Rightarrow>
                   if m_visited n = 0
                     then onNode (\<lambda>pn. pn\<lparr>m_policySum := m_policySum pn + m_pValue n\<rparr>) s p
                   else Some s) = Some s"
      by (simp add: Some False)
    have "\<exists>a. s (anc ! k) = Some a
                  \<and> s (anc ! k) =
                      Some (a\<lparr>m_policySum := (if k = 0 \<and> m_visited n = 0
                                                then m_policySum a + m_pValue n
                                                else m_policySum a)\<rparr>)"
      if "k < length anc" for k
      using ex [OF that] False by auto
    with run show ?thesis by blast
  qed
qed

lemma backPropagateValue_policySum:
  "backPropagateValue ((- 1) ^ (k + 1) * m_rawQValue n)
     (a\<lparr>m_policySum := (if k = 0 \<and> m_visited n = 0 then m_policySum a + m_pValue n
                         else m_policySum a)\<rparr>)
   = propagatedAncestor n k a"
  by (simp add: backPropagateValue_def incrementVisited_def propagatedAncestor_def)

lemma setQValueFromRaw_incrementVisited:
  "setQValueFromRaw (incrementVisited n) = propagatedLeaf n"
  by (simp add: setQValueFromRaw_def incrementVisited_def propagatedLeaf_def)

text \<open>The effect of \<open>setQValueAndPropagate\<close> on every node of the store.\<close>

lemma setQValueAndPropagate_effect:
  assumes n: "s i = Some n" and chain: "ancestry s (m_parent n) anc"
  shows "\<exists>s'. setQValueAndPropagate s i = Some s'
           \<and> s' i = Some (propagatedLeaf n)
           \<and> (\<forall>k<length anc. \<exists>a. s (anc ! k) = Some a
                  \<and> s' (anc ! k) = Some (propagatedAncestor n k a))
           \<and> (\<forall>j. j \<noteq> i \<and> j \<notin> set anc \<longrightarrow> s' j = s j)"
proof -
  have inot: "i \<notin> set anc" using n chain by (rule ancestry_not_self)
  from policySum_step [OF n chain] obtain s1 where
    run1: "(case m_parent n of
                 None \<Rightarrow> Some s
               | Some p \<Rightarrow>
                   if m_visited n = 0
                     then onNode (\<lambda>pn. pn\<lparr>m_policySum := m_policySum pn + m_pValue n\<rparr>) s p
                   else Some s) = Some s1"
    and at1: "\<And>k. k < length anc \<Longrightarrow> \<exists>a. s (anc ! k) = Some a
                  \<and> s1 (anc ! k) =
                      Some (a\<lparr>m_policySum := (if k = 0 \<and> m_visited n = 0
                                                then m_policySum a + m_pValue n
                                                else m_policySum a)\<rparr>)"
    and frame1: "\<And>j. j \<notin> set anc \<Longrightarrow> s1 j = s j"
    by blast
  have n1: "s1 i = Some n" using frame1 [OF inot] n by simp
  let ?s3 = "s1(i \<mapsto> propagatedLeaf n)"
  have run3: "Option.bind (onNode incrementVisited s1 i) (\<lambda>s2. onNode setQValueFromRaw s2 i)
                = Some ?s3"
    by (simp add: onNode_def n1 setQValueFromRaw_incrementVisited)
  have chain3: "ancestry ?s3 (m_parent n) anc"
    using chain
  proof (rule ancestry_frame)
    fix j a
    assume j: "j \<in> set anc" and a: "s j = Some a"
    then obtain k where k: "k < length anc" "anc ! k = j" by (auto simp add: in_set_conv_nth)
    from at1 [OF k(1)] a k(2) j inot
    show "\<exists>a'. ?s3 j = Some a' \<and> m_parent a' = m_parent a" by auto
  qed
  from backPropagateLoop_ancestry [OF chain3, of "m_rawQValue n"] obtain s' where
    loop: "backPropagateLoop ?s3 (m_rawQValue n) (m_parent n) = Some s'"
    and at3: "\<And>k. k < length anc \<Longrightarrow> \<exists>a. ?s3 (anc ! k) = Some a
                  \<and> s' (anc ! k) = Some (backPropagateValue ((- 1) ^ (k + 1) * m_rawQValue n) a)"
    and frame3: "\<And>j. j \<notin> set anc \<Longrightarrow> s' j = ?s3 j"
    by blast
  have leaf_fields: "m_qValue (propagatedLeaf n) = m_rawQValue n"
    "m_parent (propagatedLeaf n) = m_parent n"
    by (simp_all add: propagatedLeaf_def)
  have full: "backPropagateValueFull ?s3 i = Some s'"
    by (simp add: backPropagateValueFull_def leaf_fields loop)
  have run: "setQValueAndPropagate s i = Some s'"
    using run3 by (simp add: setQValueAndPropagate_def n run1 onNode_def n1 full
                      setQValueFromRaw_incrementVisited)
  have leaf: "s' i = Some (propagatedLeaf n)" using frame3 [OF inot] by simp
  have at: "\<exists>a. s (anc ! k) = Some a \<and> s' (anc ! k) = Some (propagatedAncestor n k a)"
    if k: "k < length anc" for k
  proof -
    from k have "anc ! k \<in> set anc" by simp
    with inot have ne: "anc ! k \<noteq> i" by auto
    from at1 [OF k] obtain a where a: "s (anc ! k) = Some a"
      and a1: "s1 (anc ! k) =
                 Some (a\<lparr>m_policySum := (if k = 0 \<and> m_visited n = 0
                                           then m_policySum a + m_pValue n
                                           else m_policySum a)\<rparr>)"
      by blast
    from at3 [OF k] obtain a3 where a3: "?s3 (anc ! k) = Some a3"
      and s3: "s' (anc ! k) = Some (backPropagateValue ((- 1) ^ (k + 1) * m_rawQValue n) a3)"
      by blast
    have "?s3 (anc ! k) = s1 (anc ! k)" using ne by simp
    with a3 a1 have "a3 = a\<lparr>m_policySum := (if k = 0 \<and> m_visited n = 0
                                           then m_policySum a + m_pValue n
                                           else m_policySum a)\<rparr>"
      by simp
    with s3 have "s' (anc ! k) = Some (propagatedAncestor n k a)"
      by (simp only: backPropagateValue_policySum)
    with a show ?thesis by blast
  qed
  have "s' j = s j" if "j \<noteq> i \<and> j \<notin> set anc" for j
    using frame3 [of j] frame1 [of j] that by simp
  with run leaf at show ?thesis by blast
qed

subsection \<open>Effect of back-propagation\<close>

text \<open>The sample chain.\<close>

lemma sampleChain_nodes:
  "sampleChain 0 = Some sampleRoot" "sampleChain 1 = Some sampleChild"
  "sampleChain 2 = Some sampleLeaf" "sampleChain (Suc 0) = Some sampleChild"
  by (simp_all add: sampleChain_def)

lemma sample_parents:
  "m_parent sampleRoot = None" "m_parent sampleChild = Some 0" "m_parent sampleLeaf = Some 1"
  by (simp_all add: sampleRoot_def sampleChild_def sampleLeaf_def Node_def)

lemma sampleChain_ancestry: "ancestry sampleChain (Some 1) [1, 0]"
proof -
  have "ancestry sampleChain (m_parent sampleRoot) []"
    by (simp add: sample_parents ancestry_null)
  with sampleChain_nodes(1) have "ancestry sampleChain (Some 0) [0]" by (rule ancestry_step)
  then have "ancestry sampleChain (m_parent sampleChild) [0]" by (simp add: sample_parents)
  with sampleChain_nodes(2) show ?thesis by (rule ancestry_step)
qed

text \<open>
  C3. For a node \<open>n\<close> at address \<open>i\<close> whose parent chain \<open>anc\<close> ends at a root,
  \<open>setQValueAndPropagate\<close> returns a store in which \<open>n\<close> is the propagated leaf (visited
  incremented, virtual loss zero, \<open>uCoeff\<close> invalidated, \<open>qValue\<close> copied from \<open>rawQValue\<close>), the
  ancestor \<open>k\<close> plies above the parent is the propagated ancestor (running mean updated
  with the value whose sign was flipped \<open>k + 1\<close> times, visited incremented, and for the
  parent of a previously unvisited \<open>n\<close> the prior added to \<open>policySum\<close>), and every other node
  is unchanged. The asserted precondition \<open>hasRawQValue\<close> is not needed for these equations.
\<close>

theorem setQValueAndPropagate_updates:
  assumes "s i = Some n" and "ancestry s (m_parent n) anc"
  shows "\<exists>s'. setQValueAndPropagate s i = Some s'
           \<and> s' i = Some (propagatedLeaf n)
           \<and> (\<forall>k<length anc. \<exists>a. s (anc ! k) = Some a
                  \<and> s' (anc ! k) = Some (propagatedAncestor n k a))
           \<and> (\<forall>j. j \<noteq> i \<and> j \<notin> set anc \<longrightarrow> s' j = s j)"
  using assms by (rule setQValueAndPropagate_effect)

theorem setQValueAndPropagate_updates_witness:
  "sampleChain 2 = Some sampleLeaf \<and> ancestry sampleChain (m_parent sampleLeaf) [1, 0]
   \<and> hasRawQValue sampleLeaf
   \<and> (\<exists>s'. setQValueAndPropagate sampleChain 2 = Some s'
         \<and> s' 2 = Some (sampleLeaf\<lparr>m_uCoeff := - 2, m_virtualLoss := 0, m_visited := 1,
                                    m_qValue := 1/2\<rparr>)
         \<and> s' 1 = Some (sampleChild\<lparr>m_policySum := 1/4, m_qValue := - 1/2, m_uCoeff := - 2,
                                     m_virtualLoss := 0, m_visited := 2\<rparr>)
         \<and> s' 0 = Some (sampleRoot\<lparr>m_policySum := 1/2, m_qValue := 1/3, m_uCoeff := - 2,
                                    m_virtualLoss := 0, m_visited := 3\<rparr>)
         \<and> s' 3 = None)"
proof -
  have a: "ancestry sampleChain (m_parent sampleLeaf) [1, 0]"
    using sampleChain_ancestry by (simp add: sample_parents)
  have r: "hasRawQValue sampleLeaf" by (simp add: hasRawQValue_def sampleLeaf_def Node_def)
  from setQValueAndPropagate_updates [OF sampleChain_nodes(3) a] obtain s' where
    run: "setQValueAndPropagate sampleChain 2 = Some s'"
    and leaf: "s' 2 = Some (propagatedLeaf sampleLeaf)"
    and at: "\<And>k. k < length [1, 0::nat] \<Longrightarrow> \<exists>a. sampleChain ([1, 0] ! k) = Some a
                  \<and> s' ([1, 0] ! k) = Some (propagatedAncestor sampleLeaf k a)"
    and frame: "\<And>j. j \<noteq> 2 \<and> j \<notin> set [1, 0::nat] \<Longrightarrow> s' j = sampleChain j"
    by blast
  have l: "s' 2 = Some (sampleLeaf\<lparr>m_uCoeff := - 2, m_virtualLoss := 0, m_visited := 1,
                                    m_qValue := 1/2\<rparr>)"
    using leaf by (simp add: propagatedLeaf_def sampleLeaf_def Node_def)
  have c: "s' 1 = Some (sampleChild\<lparr>m_policySum := 1/4, m_qValue := - 1/2, m_uCoeff := - 2,
                                     m_virtualLoss := 0, m_visited := 2\<rparr>)"
    using at [of 0]
    by (simp add: sampleChain_nodes propagatedAncestor_def sampleLeaf_def sampleChild_def Node_def)
  have t: "s' 0 = Some (sampleRoot\<lparr>m_policySum := 1/2, m_qValue := 1/3, m_uCoeff := - 2,
                                    m_virtualLoss := 0, m_visited := 3\<rparr>)"
    using at [of 1]
    by (simp add: sampleChain_nodes propagatedAncestor_def sampleLeaf_def sampleRoot_def Node_def)
  have f: "s' 3 = None" using frame [of 3] by (simp add: sampleChain_def)
  show ?thesis using sampleChain_nodes(3) a r run l c t f by blast
qed

subsection \<open>Bounds on the running mean\<close>




subsection \<open>Range of the Q values\<close>








text \<open>
  The step keeps the interval \<open>[- 1, 1]\<close> also in rounded arithmetic: for every rounding
  function that is monotone and exact on the integers up to \<open>N\<close> in either sign (binary32
  rounding is, with \<open>N = 2 ^ 24\<close>), a node visited fewer than \<open>N\<close> times whose Q value, if it
  has one, and whose incoming value lie within \<open>[- 1, 1]\<close> gets a Q value within \<open>[- 1, 1]\<close>.
\<close>

lemma backPropagateValueRounded_exact:
  "backPropagateValueRounded (\<lambda>x. x) v n = backPropagateValue v n"
  by (simp add: backPropagateValueRounded_def backPropagateValue_def)

lemma backPropagateValueRounded_unit_interval:
  assumes mono: "\<And>x y. x \<le> y \<Longrightarrow> rnd x \<le> rnd y"
    and exact: "\<And>k. k \<le> N \<Longrightarrow> rnd (real k) = real k \<and> rnd (- real k) = - real k"
    and count: "m_visited n + 1 \<le> N"
    and q: "hasQValue n \<longrightarrow> \<bar>m_qValue n\<bar> \<le> 1"
    and v: "\<bar>v\<bar> \<le> 1"
  shows "\<bar>m_qValue (backPropagateValueRounded rnd v n)\<bar> \<le> 1"
proof -
  define M where "M = real (m_visited n)"
  define prod where "prod = rnd (rnd M * m_qValue n)"
  define total where "total = rnd (prod + v)"
  have M0: "0 \<le> M" by (simp add: M_def)
  have eM: "rnd M = M" "rnd (- M) = - M"
    using exact [of "m_visited n"] count by (simp_all add: M_def)
  have M1: "real (m_visited n + 1) = M + 1" by (simp add: M_def)
  have eM1: "rnd (M + 1) = M + 1" "rnd (- (M + 1)) = - (M + 1)"
    using exact [of "m_visited n + 1"] count unfolding M1 by simp_all
  have e1: "rnd 1 = 1" "rnd (- 1) = - 1"
    using exact [of 1] count by simp_all
  have mq: "\<bar>M * m_qValue n\<bar> \<le> M"
  proof (cases "m_visited n = 0")
    case True
    then show ?thesis by (simp add: M_def)
  next
    case False
    with q have "\<bar>m_qValue n\<bar> \<le> 1" by (simp add: hasQValue_def)
    then have "M * \<bar>m_qValue n\<bar> \<le> M * 1" using M0 by (rule mult_left_mono)
    then show ?thesis using M0 by (simp add: abs_mult)
  qed
  have p1: "prod \<le> M"
  proof -
    have "M * m_qValue n \<le> M" using mq by simp
    then have "rnd (M * m_qValue n) \<le> rnd M" by (rule mono)
    then show ?thesis by (simp add: prod_def eM)
  qed
  have p2: "- M \<le> prod"
  proof -
    have "- M \<le> M * m_qValue n" using mq by linarith
    then have "rnd (- M) \<le> rnd (M * m_qValue n)" by (rule mono)
    then show ?thesis by (simp add: prod_def eM)
  qed
  have t1: "total \<le> M + 1"
  proof -
    have "prod + v \<le> M + 1" using p1 v by linarith
    then have "rnd (prod + v) \<le> rnd (M + 1)" by (rule mono)
    then show ?thesis by (simp add: total_def eM1)
  qed
  have t2: "- (M + 1) \<le> total"
  proof -
    have "- (M + 1) \<le> prod + v" using p2 v by linarith
    then have "rnd (- (M + 1)) \<le> rnd (prod + v)" by (rule mono)
    then show ?thesis unfolding total_def eM1 .
  qed
  have pos: "0 < M + 1" using M0 by simp
  have d1: "total / (M + 1) \<le> 1" using t1 pos by (simp add: pos_divide_le_eq)
  have d2: "- 1 \<le> total / (M + 1)" using t2 pos by (simp add: pos_le_divide_eq)
  have "rnd (total / (M + 1)) \<le> rnd 1" using d1 by (rule mono)
  moreover have "rnd (- 1) \<le> rnd (total / (M + 1))" using d2 by (rule mono)
  ultimately have "\<bar>rnd (total / (M + 1))\<bar> \<le> 1" by (simp add: e1 abs_le_iff)
  moreover have "m_qValue (backPropagateValueRounded rnd v n) = rnd (total / (M + 1))"
    unfolding backPropagateValueRounded_def incrementVisited_def total_def prod_def M1 eM1
    by (simp add: M_def)
  ultimately show ?thesis by simp
qed

subsection \<open>Exact nodes\<close>

lemma mean_step:
  fixes q v :: real
  shows "(real (m + 1) * ((real m * q + v) / (real m + 1)) + real t * v)
           / (real (m + 1) + real t)
         = (real m * q + real (Suc t) * v) / (real m + real (Suc t))"
proof -
  have nz: "real m + 1 \<noteq> 0" by (simp add: add_nonneg_eq_0_iff)
  have cancel: "c * (x / c) = x" if "c \<noteq> 0" for c x :: real
    using that by simp
  have "real (m + 1) = real m + 1" by simp
  then have "real (m + 1) * ((real m * q + v) / (real m + 1)) = real m * q + v"
    using cancel [OF nz] by (simp only:)
  then show ?thesis by (simp only: of_nat_Suc) (simp add: algebra_simps)
qed

lemma propagatedAncestor_fields:
  "m_parent (propagatedAncestor n k a) = m_parent a"
  "m_visited (propagatedAncestor n k a) = m_visited a + 1"
  "m_qValue (propagatedAncestor n k a)
     = (real (m_visited a) * m_qValue a + (- 1) ^ (k + 1) * m_rawQValue n)
         / (real (m_visited a) + 1)"
  by (simp_all add: propagatedAncestor_def)

lemma propagatedLeaf_fields:
  "m_parent (propagatedLeaf n) = m_parent n"
  "m_visited (propagatedLeaf n) = m_visited n + 1"
  "m_qValue (propagatedLeaf n) = m_rawQValue n"
  "m_rawQValue (propagatedLeaf n) = m_rawQValue n"
  "m_isExact (propagatedLeaf n) = m_isExact n"
  by (simp_all add: propagatedLeaf_def)

lemma propagateTimes_exact:
  "s i = Some n \<Longrightarrow> m_isExact n \<Longrightarrow> ancestry s (m_parent n) anc \<Longrightarrow> 1 \<le> t \<Longrightarrow>
   \<exists>s' n'. propagateTimes t s i = Some s' \<and> s' i = Some n'
     \<and> m_isExact n' \<and> m_rawQValue n' = m_rawQValue n \<and> m_qValue n' = m_rawQValue n
     \<and> m_visited n' = m_visited n + t
     \<and> (\<forall>k<length anc. \<exists>a a'. s (anc ! k) = Some a \<and> s' (anc ! k) = Some a'
            \<and> m_visited a' = m_visited a + t
            \<and> m_qValue a' = (real (m_visited a) * m_qValue a
                               + real t * ((- 1) ^ (k + 1) * m_rawQValue n))
                             / (real (m_visited a) + real t))"
proof (induction t arbitrary: s n)
  case 0
  then show ?case by simp
next
  case (Suc t)
  from setQValueAndPropagate_effect [OF Suc.prems(1) Suc.prems(3)] obtain s1 where
    run: "setQValueAndPropagate s i = Some s1"
    and leaf: "s1 i = Some (propagatedLeaf n)"
    and at: "\<And>k. k < length anc \<Longrightarrow> \<exists>a. s (anc ! k) = Some a
                  \<and> s1 (anc ! k) = Some (propagatedAncestor n k a)"
    by blast
  show ?case
  proof (cases "t = 0")
    case True
    have "propagateTimes (Suc t) s i = Some s1" by (simp add: True run)
    moreover have "\<exists>a a'. s (anc ! k) = Some a \<and> s1 (anc ! k) = Some a'
            \<and> m_visited a' = m_visited a + Suc t
            \<and> m_qValue a' = (real (m_visited a) * m_qValue a
                               + real (Suc t) * ((- 1) ^ (k + 1) * m_rawQValue n))
                             / (real (m_visited a) + real (Suc t))"
      if "k < length anc" for k
      using at [OF that] by (auto simp add: True propagatedAncestor_fields)
    ultimately show ?thesis
      using leaf Suc.prems(2) by (auto simp add: propagatedLeaf_fields True)
  next
    case False
    then have t1: "1 \<le> t" by simp
    have ex1: "m_isExact (propagatedLeaf n)"
      using Suc.prems(2) by (simp add: propagatedLeaf_fields)
    have "ancestry s1 (m_parent n) anc"
      using Suc.prems(3)
    proof (rule ancestry_frame)
      fix j a
      assume j: "j \<in> set anc" and a: "s j = Some a"
      then obtain k where k: "k < length anc" "anc ! k = j" by (auto simp add: in_set_conv_nth)
      from at [OF k(1)] a k(2)
      show "\<exists>a'. s1 j = Some a' \<and> m_parent a' = m_parent a"
        by (auto simp add: propagatedAncestor_fields)
    qed
    then have chain1: "ancestry s1 (m_parent (propagatedLeaf n)) anc"
      by (simp add: propagatedLeaf_fields)
    from Suc.IH [OF leaf ex1 chain1 t1] obtain s' n' where
      run': "propagateTimes t s1 i = Some s'" and n': "s' i = Some n'"
      and ex': "m_isExact n'" and raw': "m_rawQValue n' = m_rawQValue n"
      and q': "m_qValue n' = m_rawQValue n" and vis': "m_visited n' = m_visited n + 1 + t"
      and at': "\<And>k. k < length anc \<Longrightarrow> \<exists>a a'. s1 (anc ! k) = Some a \<and> s' (anc ! k) = Some a'
            \<and> m_visited a' = m_visited a + t
            \<and> m_qValue a' = (real (m_visited a) * m_qValue a
                               + real t * ((- 1) ^ (k + 1) * m_rawQValue n))
                             / (real (m_visited a) + real t)"
      by (auto simp add: propagatedLeaf_fields)
    have total: "propagateTimes (Suc t) s i = Some s'" by (simp add: run run')
    have anc': "\<exists>a a'. s (anc ! k) = Some a \<and> s' (anc ! k) = Some a'
            \<and> m_visited a' = m_visited a + Suc t
            \<and> m_qValue a' = (real (m_visited a) * m_qValue a
                               + real (Suc t) * ((- 1) ^ (k + 1) * m_rawQValue n))
                             / (real (m_visited a) + real (Suc t))"
      if k: "k < length anc" for k
    proof -
      from at [OF k] obtain a where a: "s (anc ! k) = Some a"
        and a1: "s1 (anc ! k) = Some (propagatedAncestor n k a)" by blast
      from at' [OF k] a1 obtain a' where a': "s' (anc ! k) = Some a'"
        and v: "m_visited a' = m_visited (propagatedAncestor n k a) + t"
        and q: "m_qValue a' = (real (m_visited (propagatedAncestor n k a))
                                 * m_qValue (propagatedAncestor n k a)
                               + real t * ((- 1) ^ (k + 1) * m_rawQValue n))
                             / (real (m_visited (propagatedAncestor n k a)) + real t)"
        by auto
      have v2: "m_visited a' = m_visited a + Suc t"
        using v by (simp add: propagatedAncestor_fields)
      have q2: "m_qValue a' = (real (m_visited a) * m_qValue a
                               + real (Suc t) * ((- 1) ^ (k + 1) * m_rawQValue n))
                             / (real (m_visited a) + real (Suc t))"
        unfolding q propagatedAncestor_fields by (rule mean_step)
      from a a' v2 q2 show ?thesis by blast
    qed
    have vis2: "m_visited n' = m_visited n + Suc t" using vis' by simp
    from total n' ex' raw' q' vis2 anc' show ?thesis by blast
  qed
qed

text \<open>
  C6. An exact node has \<open>qValue = rawQValue\<close> after every \<open>setQValueAndPropagate\<close> on it:
  after \<open>t \<ge> 1\<close> calls the node is still exact, its raw value is the one it had, its Q value
  equals it (it is copied, not averaged) and it was visited \<open>t\<close> more times, while the
  ancestor \<open>k\<close> plies above the parent has the running mean of its former values and the
  \<open>t\<close> propagated ones. Before the first call the equation does not hold: terminal
  detection sets \<open>rawQValue\<close> and \<open>isExact\<close> and leaves \<open>qValue\<close> at the sentinel.
\<close>

theorem exact_node_qValue_is_rawQValue:
  assumes "s i = Some n" and "m_isExact n" and "ancestry s (m_parent n) anc" and "1 \<le> t"
  shows "\<exists>s' n'. propagateTimes t s i = Some s' \<and> s' i = Some n'
     \<and> m_isExact n' \<and> m_rawQValue n' = m_rawQValue n \<and> m_qValue n' = m_rawQValue n
     \<and> m_visited n' = m_visited n + t
     \<and> (\<forall>k<length anc. \<exists>a a'. s (anc ! k) = Some a \<and> s' (anc ! k) = Some a'
            \<and> m_visited a' = m_visited a + t
            \<and> m_qValue a' = (real (m_visited a) * m_qValue a
                               + real t * ((- 1) ^ (k + 1) * m_rawQValue n))
                             / (real (m_visited a) + real t))"
  using assms by (rule propagateTimes_exact)

lemma drawnLeaf_eq:
  "drawnLeaf = (Node (Some 1) (sampleGame\<lparr>halfMoveClock := 100\<rparr>))
                 \<lparr>m_pValue := 1/4, m_rawQValue := 0, m_isExact := True\<rparr>"
  by (simp add: drawnLeaf_def generatePotentials_def hasPotentials_def Node_def)

lemma drawnChain_nodes:
  "drawnChain 0 = Some sampleRoot" "drawnChain 1 = Some sampleChild"
  "drawnChain 2 = Some drawnLeaf" "drawnChain (Suc 0) = Some sampleChild"
  by (simp_all add: drawnChain_def sampleChain_def)

lemma drawnChain_ancestry: "ancestry drawnChain (m_parent drawnLeaf) [1, 0]"
proof -
  have "ancestry drawnChain (m_parent sampleRoot) []"
    by (simp add: sample_parents ancestry_null)
  with drawnChain_nodes(1) have "ancestry drawnChain (Some 0) [0]" by (rule ancestry_step)
  then have "ancestry drawnChain (m_parent sampleChild) [0]" by (simp add: sample_parents)
  with drawnChain_nodes(2) have "ancestry drawnChain (Some 1) [1, 0]" by (rule ancestry_step)
  then show ?thesis by (simp add: drawnLeaf_eq Node_def)
qed

theorem exact_node_qValue_is_rawQValue_witness:
  "drawnChain 2 = Some drawnLeaf \<and> m_isExact drawnLeaf
   \<and> ancestry drawnChain (m_parent drawnLeaf) [1, 0] \<and> (1::nat) \<le> 3
   \<and> (\<exists>s' n' a0 a1. propagateTimes 3 drawnChain 2 = Some s' \<and> s' 2 = Some n'
         \<and> m_isExact n' \<and> m_rawQValue n' = 0 \<and> m_qValue n' = 0 \<and> m_visited n' = 3
         \<and> s' 1 = Some a0 \<and> m_visited a0 = 4 \<and> m_qValue a0 = - 1/8
         \<and> s' 0 = Some a1 \<and> m_visited a1 = 5 \<and> m_qValue a1 = 1/10)"
proof -
  have e: "m_isExact drawnLeaf" by (simp add: drawnLeaf_eq)
  have t: "(1::nat) \<le> 3" by simp
  from exact_node_qValue_is_rawQValue [OF drawnChain_nodes(3) e drawnChain_ancestry t]
  obtain s' n' where run: "propagateTimes 3 drawnChain 2 = Some s'" and n': "s' 2 = Some n'"
    and f: "m_isExact n'" "m_rawQValue n' = m_rawQValue drawnLeaf"
      "m_qValue n' = m_rawQValue drawnLeaf" "m_visited n' = m_visited drawnLeaf + 3"
    and at: "\<And>k. k < length [1, 0::nat] \<Longrightarrow> \<exists>a a'. drawnChain ([1, 0] ! k) = Some a
            \<and> s' ([1, 0] ! k) = Some a'
            \<and> m_visited a' = m_visited a + 3
            \<and> m_qValue a' = (real (m_visited a) * m_qValue a
                               + real (3::nat) * ((- 1) ^ (k + 1) * m_rawQValue drawnLeaf))
                             / (real (m_visited a) + real (3::nat))"
    by blast
  have f': "m_rawQValue n' = 0" "m_qValue n' = 0" "m_visited n' = 3"
    using f by (simp_all add: drawnLeaf_eq Node_def)
  from at [of 0] obtain a0 where a0: "s' 1 = Some a0" "m_visited a0 = 4" "m_qValue a0 = - 1/8"
    by (auto simp add: drawnChain_nodes sampleChild_def drawnLeaf_eq Node_def)
  from at [of 1] obtain a1 where a1: "s' 0 = Some a1" "m_visited a1 = 5" "m_qValue a1 = 1/10"
    by (auto simp add: drawnChain_nodes sampleRoot_def drawnLeaf_eq Node_def)
  show ?thesis
    using drawnChain_nodes(3) e drawnChain_ancestry t run n' f(1) f' a0 a1 by blast
qed

text \<open>The grandchild whose halfmove clock is 100, as \<open>generatePotentials\<close> leaves it: exact,
  with raw value zero and the Q value still unset.\<close>

theorem exact_node_qValue_is_rawQValue_counterexample:
  "drawnChain 2 = Some drawnLeaf \<and> m_isExact drawnLeaf \<and> m_rawQValue drawnLeaf = 0
   \<and> m_qValue drawnLeaf = - 2 \<and> m_qValue drawnLeaf \<noteq> m_rawQValue drawnLeaf"
  by (simp add: drawnChain_nodes drawnLeaf_eq Node_def)

subsection \<open>Re-rooting\<close>

lemma indexOf_member:
  "x \<in> set xs \<Longrightarrow>
   indexOf xs x \<noteq> - 1 \<and> 0 \<le> indexOf xs x \<and> removeAt (indexOf xs x) xs = remove1 x xs"
proof (induction xs)
  case Nil
  then show ?case by simp
next
  case (Cons y ys)
  show ?case
  proof (cases "y = x")
    case True
    then show ?thesis by (simp add: removeAt_def)
  next
    case False
    with Cons.prems have "x \<in> set ys" by simp
    from Cons.IH [OF this] have i: "indexOf ys x \<noteq> - 1" "0 \<le> indexOf ys x"
      and r: "removeAt (indexOf ys x) ys = remove1 x ys" by simp_all
    have "nat (indexOf ys x + 1) = Suc (nat (indexOf ys x))" using i(2) by simp
    then have "removeAt (indexOf ys x + 1) (y # ys) = y # removeAt (indexOf ys x) ys"
      by (simp add: removeAt_def)
    with False i r show ?thesis by simp
  qed
qed

lemma rootNode_root: "s i = Some n \<Longrightarrow> isRootNode n \<Longrightarrow> rootNode s i = Some i"
  by (subst rootNode.simps) simp

lemma rootNode_step: "s i = Some n \<Longrightarrow> m_parent n = Some p \<Longrightarrow> rootNode s i = rootNode s p"
  by (subst rootNode.simps) (simp add: isRootNode_def)

text \<open>In a store where \<open>c\<close> is a root and every other node kept its parent pointer, every
  node that descended from \<open>c\<close> has the root \<open>c\<close>.\<close>

lemma descends_rootNode:
  assumes "descends s d c"
    and "rootNode s' c = Some c"
    and "\<And>j nd. j \<noteq> c \<Longrightarrow> s j = Some nd \<Longrightarrow> \<exists>nd'. s' j = Some nd' \<and> m_parent nd' = m_parent nd"
  shows "rootNode s' d = Some c"
  using assms
proof (induction rule: descends.induct)
  case (descends_self s c n)
  then show ?case by simp
next
  case (descends_up s d n q c)
  show ?case
  proof (cases "d = c")
    case True
    with descends_up.prems(1) show ?thesis by simp
  next
    case False
    from descends_up.prems(2) [OF False descends_up.hyps(1)] obtain nd' where
      "s' d = Some nd'" "m_parent nd' = Some q"
      using descends_up.hyps(2) by auto
    then have "rootNode s' d = rootNode s' q" by (rule rootNode_step)
    also have "\<dots> = Some c"
      by (rule descends_up.IH) (use descends_up.prems in auto)
    finally show ?thesis .
  qed
qed

lemma setAsRootNode_effect:
  assumes c: "s c = Some n" and par: "m_parent n = Some p" and pn: "s p = Some pn"
    and ne: "p \<noteq> c" and mem: "c \<in> set (m_children pn)" and dist: "distinct (m_children pn)"
    and desc: "descends s d c"
  shows "\<exists>s'. setAsRootNode s c = Some s'
           \<and> s' c = Some (n\<lparr>m_parent := None\<rparr>)
           \<and> s' p = Some (pn\<lparr>m_children := remove1 c (m_children pn)\<rparr>)
           \<and> c \<notin> set (remove1 c (m_children pn))
           \<and> (\<forall>j. j \<noteq> c \<and> j \<noteq> p \<longrightarrow> s' j = s j)
           \<and> rootNode s' c = Some c \<and> rootNode s' d = Some c"
proof -
  let ?s' = "(s(p \<mapsto> pn\<lparr>m_children := remove1 c (m_children pn)\<rparr>))(c \<mapsto> n\<lparr>m_parent := None\<rparr>)"
  from indexOf_member [OF mem] have i: "indexOf (m_children pn) c \<noteq> - 1"
    and r: "removeAt (indexOf (m_children pn) c) (m_children pn) = remove1 c (m_children pn)"
    by simp_all
  have run: "setAsRootNode s c = Some ?s'"
    using ne by (simp add: setAsRootNode_def c par pn i r)
  have sc: "?s' c = Some (n\<lparr>m_parent := None\<rparr>)" by simp
  have sp: "?s' p = Some (pn\<lparr>m_children := remove1 c (m_children pn)\<rparr>)" using ne by simp
  have gone: "c \<notin> set (remove1 c (m_children pn))" using dist by simp
  have frame: "\<forall>j. j \<noteq> c \<and> j \<noteq> p \<longrightarrow> ?s' j = s j" by simp
  have rc: "rootNode ?s' c = Some c"
    using sc by (rule rootNode_root) (simp add: isRootNode_def)
  have rd: "rootNode ?s' d = Some c"
    using desc rc
  proof (rule descends_rootNode)
    fix j nd
    assume "j \<noteq> c" and "s j = Some nd"
    then show "\<exists>nd'. ?s' j = Some nd' \<and> m_parent nd' = m_parent nd"
      using pn by (cases "j = p") auto
  qed
  from run sc sp gone frame rc rd show ?thesis by blast
qed

text \<open>
  C8. For a node \<open>c\<close> with parent \<open>p\<close>, listed once among the children of \<open>p\<close>,
  \<open>setAsRootNode\<close> removes \<open>c\<close> from the children of \<open>p\<close> and clears the parent pointer of
  \<open>c\<close>; nothing else in \<open>c\<close>, in \<open>p\<close> or in any other node changes. Afterwards \<open>rootNode\<close>
  returns \<open>c\<close> for \<open>c\<close> and for every node \<open>d\<close> that descended from \<open>c\<close>.
\<close>

theorem setAsRootNode_detaches:
  assumes "s c = Some n" and "m_parent n = Some p" and "s p = Some pn"
    and "p \<noteq> c" and "c \<in> set (m_children pn)" and "distinct (m_children pn)"
    and "descends s d c"
  shows "\<exists>s'. setAsRootNode s c = Some s'
           \<and> s' c = Some (n\<lparr>m_parent := None\<rparr>)
           \<and> s' p = Some (pn\<lparr>m_children := remove1 c (m_children pn)\<rparr>)
           \<and> c \<notin> set (remove1 c (m_children pn))
           \<and> (\<forall>j. j \<noteq> c \<and> j \<noteq> p \<longrightarrow> s' j = s j)
           \<and> rootNode s' c = Some c \<and> rootNode s' d = Some c"
  using assms by (rule setAsRootNode_effect)

theorem setAsRootNode_detaches_witness:
  "sampleChain 1 = Some sampleChild \<and> m_parent sampleChild = Some 0
   \<and> sampleChain 0 = Some sampleRoot \<and> (0::nat) \<noteq> 1 \<and> 1 \<in> set (m_children sampleRoot)
   \<and> distinct (m_children sampleRoot) \<and> descends sampleChain 2 1
   \<and> (\<exists>s'. setAsRootNode sampleChain 1 = Some s'
         \<and> s' 1 = Some (sampleChild\<lparr>m_parent := None\<rparr>)
         \<and> s' 0 = Some (sampleRoot\<lparr>m_children := []\<rparr>)
         \<and> s' 2 = Some sampleLeaf
         \<and> rootNode s' 1 = Some 1 \<and> rootNode s' 2 = Some 1)"
proof -
  have ne: "(0::nat) \<noteq> 1" by simp
  have mem: "1 \<in> set (m_children sampleRoot)" by (simp add: sampleRoot_def)
  have dist: "distinct (m_children sampleRoot)" by (simp add: sampleRoot_def)
  have "descends sampleChain 1 1" using sampleChain_nodes(2) by (rule descends_self)
  with sampleChain_nodes(3) sample_parents(3) have desc: "descends sampleChain 2 1"
    by (rule descends_up)
  from setAsRootNode_detaches
         [OF sampleChain_nodes(2) sample_parents(2) sampleChain_nodes(1) ne mem dist desc]
  obtain s' where run: "setAsRootNode sampleChain 1 = Some s'"
    and sc: "s' 1 = Some (sampleChild\<lparr>m_parent := None\<rparr>)"
    and sp: "s' 0 = Some (sampleRoot\<lparr>m_children := remove1 1 (m_children sampleRoot)\<rparr>)"
    and frame: "\<forall>j. j \<noteq> 1 \<and> j \<noteq> 0 \<longrightarrow> s' j = sampleChain j"
    and roots: "rootNode s' 1 = Some 1" "rootNode s' 2 = Some 1"
    by blast
  have sp': "s' 0 = Some (sampleRoot\<lparr>m_children := []\<rparr>)"
    using sp by (simp add: sampleRoot_def)
  have sl: "s' 2 = Some sampleLeaf" using frame by (simp add: sampleChain_nodes)
  show ?thesis
    using sampleChain_nodes(1,2) sample_parents(2) ne mem dist desc run sc sp' sl roots
    by blast
qed

end
